theory Spec2Isabelle
  imports Complex_Main "HOL-Library.FSet" "HOL-Library.Char_ord" "HOL-Library.List_Lexorder"
begin

section \<open>Common data\<close>

text \<open>
  Python \<^verbatim>\<open>bytes\<close> values are lists of 8-bit characters. Addresses are the
  \<^verbatim>\<open>(ip, port)\<close> tuples that the sockets API hands out.
\<close>

type_synonym bytes = string
type_synonym address = "string \<times> int"

section \<open>dht.py: KRPC messages and the neighbour identifier\<close>

text \<open>
  The values that travel in KRPC messages after \<^verbatim>\<open>to_str\<close>: integers, byte strings,
  text strings, lists and dictionaries. Dictionary keys are kept as character lists; a
  dictionary is an association list in insertion order.
\<close>

datatype pyval =
  PInt int
| PBytes bytes
| PStr string
| PList "pyval list"
| PDict "(string \<times> pyval) list"

text \<open>\<^verbatim>\<open>d.get(k)\<close> on a dictionary, \<open>None\<close> when the key is absent or the value is no dictionary.\<close>

fun dict_get :: "pyval \<Rightarrow> string \<Rightarrow> pyval option" where
  "dict_get (PDict kvs) k = map_of kvs k"
| "dict_get _ k = None"

text \<open>
  \<^verbatim>\<open>def get_neighbor(target, nid, end=10): return target[:end] + nid[end:]\<close>
\<close>

definition get_neighbor :: "bytes \<Rightarrow> bytes \<Rightarrow> nat \<Rightarrow> bytes" where
  "get_neighbor target nid e = take e target @ drop e nid"

text \<open>The fields of \<^verbatim>\<open>DHTProcess\<close> that the message handlers read.\<close>

record dht_process =
  nid :: bytes
  ip :: string
  port :: int
  token_length :: nat
  tid_length :: nat

text \<open>
  \<^verbatim>\<open>send_find_node(self, address, nid=None)\<close>. The two random draws
  (\<^verbatim>\<open>entropy(self.tid_length)\<close> and \<^verbatim>\<open>self.random_id_fn()\<close>) are arguments. The result is
  the pair handed to \<^verbatim>\<open>send_krpc\<close>. \<^verbatim>\<open>get_neighbor\<close> is called with two arguments, so
  its \<^verbatim>\<open>end\<close> is the default 10. \<^verbatim>\<open>if nid\<close> is false for \<^verbatim>\<open>None\<close> and for \<^verbatim>\<open>b""\<close>.
\<close>

definition send_find_node ::
  "dht_process \<Rightarrow> address \<Rightarrow> bytes option \<Rightarrow> bytes \<Rightarrow> bytes \<Rightarrow> pyval \<times> address" where
  "send_find_node self addr nid_opt tid target =
     (let nid2 = (case nid_opt of
                    None \<Rightarrow> nid self
                  | Some n \<Rightarrow> if n \<noteq> [] then get_neighbor n (nid self) 10 else nid self);
          msg = PDict [(''t'', PBytes tid), (''y'', PBytes ''q''), (''q'', PBytes ''find_node''),
                       (''a'', PDict [(''id'', PBytes nid2), (''target'', PBytes target)])]
      in (msg, addr))"

text \<open>The \<^verbatim>\<open>a.id\<close> field of a query.\<close>

definition query_id :: "pyval \<Rightarrow> pyval option" where
  "query_id msg = (case dict_get msg ''a'' of None \<Rightarrow> None | Some a \<Rightarrow> dict_get a ''id'')"

text \<open>
  \<^verbatim>\<open>KNode\<close> and one round of \<^verbatim>\<open>auto_send_find_node\<close>: pop the oldest node and send it a
  \<^verbatim>\<open>find_node\<close> carrying the node's own identifier; an empty deque sends nothing.
\<close>

record knode =
  k_nid :: bytes
  k_ip :: string
  k_port :: int

fun auto_send_find_node_step ::
  "dht_process \<Rightarrow> knode list \<Rightarrow> bytes \<Rightarrow> bytes \<Rightarrow> (pyval \<times> address) option \<times> knode list" where
  "auto_send_find_node_step self [] tid target = (None, [])"
| "auto_send_find_node_step self (node # rest) tid target =
     (Some (send_find_node self (k_ip node, k_port node) (Some (k_nid node)) tid target), rest)"

text \<open>
  \<^verbatim>\<open>join_dht\<close>: the bootstrap hosts and the addresses drawn from the bootstrap store are
  queried without a node identifier. \<open>draws\<close> gives the random transaction id and target of
  each query.
\<close>

definition join_dht ::
  "dht_process \<Rightarrow> address list \<Rightarrow> address list \<Rightarrow> (address \<Rightarrow> bytes \<times> bytes) \<Rightarrow> (pyval \<times> address) list" where
  "join_dht self bootstrap_nodes bootstrap_extra draws =
     map (\<lambda>a. send_find_node self a None (fst (draws a)) (snd (draws a)))
       (bootstrap_nodes @ bootstrap_extra)"

section \<open>master.py: the dispatcher\<close>

text \<open>
  \<^verbatim>\<open>infohash.hex().upper()\<close>: two lower-case hexadecimal digits per byte, then upper-cased.
  Only the ASCII letters matter to \<^verbatim>\<open>upper\<close> here.
\<close>

definition hex_digit :: "nat \<Rightarrow> char" where
  "hex_digit n = ''0123456789abcdef'' ! (n mod 16)"

definition py_hex :: "bytes \<Rightarrow> string" where
  "py_hex bs = concat (map (\<lambda>c. [hex_digit (of_char c div 16), hex_digit (of_char c mod 16)]) bs)"

definition upper_char :: "char \<Rightarrow> char" where
  "upper_char c =
     (let n = (of_char c :: nat) in if 97 \<le> n \<and> n \<le> 122 then char_of (n - 32) else c)"

definition upper :: "string \<Rightarrow> string" where
  "upper s = map upper_char s"

type_synonym seen_key = "string \<times> string \<times> int"

text \<open>
  The state of \<^verbatim>\<open>Master\<close> that \<^verbatim>\<open>_enqueue_once\<close>, \<^verbatim>\<open>_is_bad\<close>, \<^verbatim>\<open>_mark_bad\<close>,
  \<^verbatim>\<open>_record_failure\<close> and \<^verbatim>\<open>_worker\<close> read and write. Clock values (\<^verbatim>\<open>time.time()\<close>)
  are real numbers; every clock read is an argument of the operation that makes it.
\<close>

record master =
  seen :: "seen_key fset"
  bad :: "address \<rightharpoonup> real"
  fail_counts :: "address \<rightharpoonup> int \<times> real"
  queue :: "(address \<times> bytes) list"
  ok_count :: int
  fail_count :: int

text \<open>The attributes \<^verbatim>\<open>__init__\<close> sets and nothing reassigns.\<close>

definition bad_ttl :: real where "bad_ttl = 300"
definition fail_window :: real where "fail_window = 180"
definition fail_threshold :: int where "fail_threshold = 3"

definition master_init :: master where
  "master_init = \<lparr>seen = {||}, bad = Map.empty, fail_counts = Map.empty, queue = [],
                   ok_count = 0, fail_count = 0\<rparr>"

definition mark_bad :: "master \<Rightarrow> real \<Rightarrow> address \<Rightarrow> master" where
  "mark_bad self now a = self\<lparr>bad := (bad self)(a \<mapsto> now + bad_ttl)\<rparr>"

text \<open>
  \<^verbatim>\<open>_is_bad\<close>: \<^verbatim>\<open>if not until\<close> holds for a missing entry and for the value 0; an expired
  entry is deleted by the lookup.
\<close>

definition is_bad :: "master \<Rightarrow> real \<Rightarrow> address \<Rightarrow> bool \<times> master" where
  "is_bad self now a =
     (case bad self a of
        None \<Rightarrow> (False, self)
      | Some until \<Rightarrow>
          if until = 0 then (False, self)
          else if until \<le> now then (False, self\<lparr>bad := (bad self)(a := None)\<rparr>)
          else (True, self))"

text \<open>
  \<^verbatim>\<open>_record_failure\<close>: \<open>now\<close> is its own clock read, \<open>now2\<close> the later one inside
  \<^verbatim>\<open>_mark_bad\<close>.
\<close>

definition record_failure :: "master \<Rightarrow> real \<Rightarrow> real \<Rightarrow> address \<Rightarrow> master" where
  "record_failure self now now2 a =
     (let (count0, until0) = (case fail_counts self a of None \<Rightarrow> (0, now + fail_window) | Some cu \<Rightarrow> cu);
          (count1, until) = (if until0 \<le> now then (0, now + fail_window) else (count0, until0));
          count = count1 + 1;
          self1 = self\<lparr>fail_counts := (fail_counts self)(a \<mapsto> (count, until))\<rparr>
      in if count \<ge> fail_threshold then mark_bad self1 now2 a else self1)"

text \<open>
  \<^verbatim>\<open>_enqueue_once(infohash, address)\<close>. The infohash is whatever value the DHT handler
  found in the message; a false address (\<^verbatim>\<open>None\<close>, an empty tuple) is \<open>None\<close>. The log line
  is not modelled.
\<close>

definition seen_key_of :: "bytes \<Rightarrow> address \<Rightarrow> seen_key" where
  "seen_key_of ih a = (upper (py_hex ih), fst a, snd a)"

definition enqueue_once :: "master \<Rightarrow> real \<Rightarrow> pyval \<Rightarrow> address option \<Rightarrow> bool \<times> master" where
  "enqueue_once self now infohash address =
     (case address of
        None \<Rightarrow> (False, self)
      | Some a \<Rightarrow>
         (case infohash of
            PBytes ih \<Rightarrow>
              if length ih \<noteq> 20 then (False, self)
              else
                (case is_bad self now a of
                   (True, self1) \<Rightarrow> (False, self1)
                 | (False, self1) \<Rightarrow>
                     let key = seen_key_of ih a in
                     if key |\<in>| seen self1 then (False, self1)
                     else
                       let seen1 = finsert key (seen self1);
                           seen2 = (if fcard seen1 > 60000 then {||} else seen1)
                       in (True, self1\<lparr>seen := seen2, queue := queue self1 @ [(a, ih)]\<rparr>))
          | _ \<Rightarrow> (False, self)))"


text \<open>
  Four \<^verbatim>\<open>timeout\<close> results against one address, recorded at the clock values 1000, 1170,
  1185 and 1190, starting from the initial state.
\<close>

definition failures_trace :: master where
  "failures_trace =
     record_failure (record_failure (record_failure (record_failure master_init
        1000 1000 (''1.2.3.4'', 6881)) 1170 1170 (''1.2.3.4'', 6881))
        1185 1185 (''1.2.3.4'', 6881)) 1190 1190 (''1.2.3.4'', 6881)"

section \<open>The reputation stores of dht.py and master.py\<close>

text \<open>Python exceptions that the modelled code can raise.\<close>

datatype exn = KeyError | TypeError | ValueError | SocketTimeout | OSError | OtherException














section \<open>bt_metadata.py: the tolerant bencode framing scan\<close>

text \<open>
  Python's slice \<^verbatim>\<open>buf[lo:hi]\<close> and \<^verbatim>\<open>buf.find(c, start)\<close> for a one-byte pattern, with
  integer indices: a negative index counts from the end, and both are clamped to the
  buffer. \<^verbatim>\<open>find\<close> returns \<open>-1\<close> when the byte does not occur.
\<close>

definition py_index :: "nat \<Rightarrow> int \<Rightarrow> nat" where
  "py_index n x = (if x < 0 then nat (max (int n + x) 0) else min (nat x) n)"

definition py_slice :: "bytes \<Rightarrow> int \<Rightarrow> int \<Rightarrow> bytes" where
  "py_slice buf lo hi =
     (let s = py_index (length buf) lo; e = py_index (length buf) hi
      in take (e - s) (drop s buf))"

fun find_char :: "char \<Rightarrow> bytes \<Rightarrow> nat option" where
  "find_char c [] = None"
| "find_char c (x # xs) = (if x = c then Some 0 else map_option Suc (find_char c xs))"

definition py_find :: "char \<Rightarrow> bytes \<Rightarrow> int \<Rightarrow> int" where
  "py_find c buf start =
     (let s = py_index (length buf) start
      in case find_char c (drop s buf) of None \<Rightarrow> -1 | Some k \<Rightarrow> int (s + k))"

text \<open>
  \<^verbatim>\<open>int(b)\<close> for a byte string, base ten: optional white space around, an optional sign,
  then decimal digits, where single underscores may stand between digits. \<open>None\<close> is the
  \<^verbatim>\<open>ValueError\<close>. The interpreter's configurable limit on the number of digits of an
  integer conversion is left out.
\<close>

definition is_space :: "char \<Rightarrow> bool" where
  "is_space c = (c = CHR '' '' \<or> (9 \<le> (of_char c :: nat) \<and> (of_char c :: nat) \<le> 13))"

definition is_digit :: "char \<Rightarrow> bool" where
  "is_digit c = (48 \<le> (of_char c :: nat) \<and> (of_char c :: nat) \<le> 57)"

definition digit_val :: "char \<Rightarrow> nat" where
  "digit_val c = of_char c - 48"

fun digits_acc :: "nat \<Rightarrow> bytes \<Rightarrow> nat option" where
  "digits_acc acc [] = Some acc"
| "digits_acc acc (c # cs) =
     (if is_digit c then digits_acc (10 * acc + digit_val c) cs
      else if c = CHR ''_'' then
        (case cs of
           [] \<Rightarrow> None
         | d # ds \<Rightarrow> if is_digit d then digits_acc (10 * acc + digit_val d) ds else None)
      else None)"

fun digits_value :: "bytes \<Rightarrow> nat option" where
  "digits_value [] = None"
| "digits_value (c # cs) = (if is_digit c then digits_acc (digit_val c) cs else None)"

definition py_strip :: "bytes \<Rightarrow> bytes" where
  "py_strip s = rev (dropWhile is_space (rev (dropWhile is_space s)))"

definition py_int :: "bytes \<Rightarrow> int option" where
  "py_int s =
     (case py_strip s of
        [] \<Rightarrow> None
      | c # cs \<Rightarrow>
          if c = CHR ''-'' then map_option (\<lambda>v. - int v) (digits_value cs)
          else if c = CHR ''+'' then map_option int (digits_value cs)
          else map_option int (digits_value (c # cs)))"

text \<open>
  \<^verbatim>\<open>bencode_next_index(buf, i)\<close>; \<open>None\<close> is the Python \<^verbatim>\<open>None\<close>. The \<^verbatim>\<open>while True\<close> loop of the
  list and dictionary branch is \<open>bencode_next_index_loop\<close>. The comparison
  \<^verbatim>\<open>b"0" <= c <= b"9"\<close> holds for a one-byte \<open>c\<close> that is a decimal digit.
\<close>

function (domintros) bencode_next_index :: "bytes \<Rightarrow> int \<Rightarrow> int option"
  and bencode_next_index_loop :: "bytes \<Rightarrow> int \<Rightarrow> int option" where
  "bencode_next_index buf i =
     (if i \<ge> int (length buf) then None
      else
        let c = py_slice buf i (i + 1) in
        if c = ''i'' then
          (let j = py_find CHR ''e'' buf (i + 1) in if j = -1 then None else Some (j + 1))
        else if c = ''l'' \<or> c = ''d'' then bencode_next_index_loop buf (i + 1)
        else if length c = 1 \<and> is_digit (hd c) then
          (let colon = py_find CHR '':'' buf i in
           if colon = -1 then None
           else
             (case py_int (py_slice buf i colon) of
                None \<Rightarrow> None
              | Some sz \<Rightarrow>
                  let start = colon + 1; e = start + sz
                  in if e > int (length buf) then None else Some e))
        else None)"
| "bencode_next_index_loop buf i =
     (if i \<ge> int (length buf) then None
      else if py_slice buf i (i + 1) = ''e'' then Some (i + 1)
      else
        (case bencode_next_index buf i of
           None \<Rightarrow> None
         | Some ni \<Rightarrow> bencode_next_index_loop buf ni))"
  by pat_completeness auto

text \<open>
  Termination: every result of the scan lies beyond its starting index, so the loop and
  the recursion move forward in a buffer of fixed length.
\<close>

lemma find_char_Some: "find_char c xs = Some k \<Longrightarrow> k < length xs \<and> xs ! k = c"
  by (induction xs arbitrary: k) (auto split: if_splits)

lemma py_index_le: "py_index n x \<le> n"
  unfolding py_index_def by auto

lemma py_index_ge: "x \<le> int n \<Longrightarrow> x \<le> int (py_index n x)"
  unfolding py_index_def by auto

lemma py_find_range:
  assumes "py_find c buf s \<noteq> - 1"
  shows "s \<le> py_find c buf s \<and> py_find c buf s < int (length buf)"
proof -
  let ?s = "py_index (length buf) s"
  obtain k where k: "find_char c (drop ?s buf) = Some k" and f: "py_find c buf s = int (?s + k)"
    using assms by (auto simp: py_find_def Let_def split: option.splits)
  from find_char_Some[OF k] have kl: "?s + k < length buf" by auto
  then have "s \<le> int (length buf)" using py_index_le[of "length buf" s]
    by (cases "s \<le> int (length buf)") (auto simp: py_index_def)
  from py_index_ge[OF this] f kl show ?thesis by simp
qed

lemma rev_dropWhile_rev_hd:
  assumes "s \<noteq> []" "\<not> P (hd s)"
  shows "\<exists>cs. rev (dropWhile P (rev s)) = hd s # cs"
proof -
  obtain x xs where s: "s = x # xs" using assms(1) by (cases s) auto
  have "dropWhile P (rev xs @ [x]) = dropWhile P (rev xs) @ [x]"
    using assms(2) s by (simp add: dropWhile_append)
  then show ?thesis using s by simp
qed

lemma is_digit_not_space: "is_digit c \<Longrightarrow> \<not> is_space c"
  by (auto simp: is_digit_def is_space_def)

lemma is_digit_not_sign: "is_digit c \<Longrightarrow> c \<noteq> CHR ''-'' \<and> c \<noteq> CHR ''+''"
  by (auto simp: is_digit_def)

lemma py_int_digit_nonneg:
  assumes "py_int s = Some v" "s \<noteq> []" "is_digit (hd s)"
  shows "0 \<le> v"
proof -
  have "dropWhile is_space s = s"
    using assms(2,3) is_digit_not_space by (cases s) auto
  then obtain cs where "py_strip s = hd s # cs"
    using rev_dropWhile_rev_hd[OF assms(2), of is_space] is_digit_not_space[OF assms(3)]
    by (auto simp: py_strip_def)
  with assms(1) is_digit_not_sign[OF assms(3)] show ?thesis
    by (auto simp: py_int_def)
qed

lemma py_int_Nil: "py_int [] = None"
  by (simp add: py_int_def py_strip_def)

lemma py_slice_hd:
  assumes "py_slice buf i (i + 1) = [d]" "py_slice buf i hi \<noteq> []"
  shows "hd (py_slice buf i hi) = d"
proof -
  let ?s = "py_index (length buf) i"
  from assms(1) have "drop ?s buf \<noteq> []" by (auto simp: py_slice_def Let_def)
  then obtain x xs where d: "drop ?s buf = x # xs" by (cases "drop ?s buf") auto
  from assms(1) d have "x = d"
    by (auto simp: py_slice_def Let_def take_Cons' split: if_splits)
  with assms(2) d show ?thesis
    by (auto simp: py_slice_def Let_def take_Cons' split: if_splits)
qed

text \<open>The two branches of \<^verbatim>\<open>bencode_next_index\<close> that do not recurse.\<close>

lemma int_branch_advances:
  assumes "py_find CHR ''e'' buf (i + 1) \<noteq> - 1"
  shows "i < py_find CHR ''e'' buf (i + 1) + 1 \<and> py_find CHR ''e'' buf (i + 1) + 1 \<le> int (length buf)"
  using py_find_range[OF assms] by simp

lemma string_branch_advances:
  assumes c: "py_slice buf i (i + 1) = [d]" "is_digit d"
    and colon: "py_find CHR '':'' buf i \<noteq> - 1"
    and sz: "py_int (py_slice buf i (py_find CHR '':'' buf i)) = Some sz"
  shows "i < py_find CHR '':'' buf i + 1 + sz"
proof -
  have ne: "py_slice buf i (py_find CHR '':'' buf i) \<noteq> []"
    using sz py_int_Nil by auto
  from py_slice_hd[OF c(1) ne] c(2) have "is_digit (hd (py_slice buf i (py_find CHR '':'' buf i)))"
    by simp
  from py_int_digit_nonneg[OF sz ne this] py_find_range[OF colon] show ?thesis by simp
qed

lemma bencode_next_index_partial:
  "bencode_next_index_bencode_next_index_loop_dom (Inl (buf, i)) \<Longrightarrow>
     bencode_next_index buf i = Some j \<Longrightarrow> i < j \<and> j \<le> int (length buf)"
  "bencode_next_index_bencode_next_index_loop_dom (Inr (buf, i)) \<Longrightarrow>
     bencode_next_index_loop buf i = Some j \<Longrightarrow> i < j \<and> j \<le> int (length buf)"
proof (induction arbitrary: j and j rule: bencode_next_index_bencode_next_index_loop.pinduct)
  case (1 buf i)
  from "1.prems" "1.hyps" have r: "bencode_next_index buf i = Some j" by simp
  note ps = bencode_next_index.psimps[OF "1.hyps"]
  let ?c = "py_slice buf i (i + 1)"
  from r ps have lt: "i < int (length buf)" by (auto split: if_splits)
  consider (int) "?c = ''i''" | (coll) "?c \<noteq> ''i''" "?c = ''l'' \<or> ?c = ''d''"
    | (str) "?c \<noteq> ''i''" "\<not> (?c = ''l'' \<or> ?c = ''d'')" "length ?c = 1 \<and> is_digit (hd ?c)"
    | (other) "?c \<noteq> ''i''" "\<not> (?c = ''l'' \<or> ?c = ''d'')" "\<not> (length ?c = 1 \<and> is_digit (hd ?c))"
    by blast
  then show ?case
  proof cases
    case int
    with r ps lt int_branch_advances[of buf i] show ?thesis
      by (auto simp: Let_def split: if_splits)
  next
    case coll
    with r ps lt have "bencode_next_index_loop buf (i + 1) = Some j"
      by (auto simp: Let_def split: if_splits)
    from "1.IH"[OF _ refl coll(1) coll(2) this] lt show ?thesis by simp
  next
    case str
    then obtain d where d: "?c = [d]" "is_digit d"
      by (cases ?c) auto
    from r ps lt str d obtain sz where
      colon: "py_find CHR '':'' buf i \<noteq> - 1"
      and sz: "py_int (py_slice buf i (py_find CHR '':'' buf i)) = Some sz"
      and j: "j = py_find CHR '':'' buf i + 1 + sz" "j \<le> int (length buf)"
      by (auto simp: Let_def split: if_splits option.splits)
    from string_branch_advances[OF d colon sz] j show ?thesis by simp
  next
    case other
    with r ps lt show ?thesis by (auto simp: Let_def split: if_splits)
  qed
next
  case (2 buf i)
  note ps = bencode_next_index_loop.psimps[OF "2.hyps"]
  from "2.prems" ps have lt: "i < int (length buf)" by (auto split: if_splits)
  show ?case
  proof (cases "py_slice buf i (i + 1) = ''e''")
    case True
    with "2.prems" ps lt show ?thesis by auto
  next
    case False
    with "2.prems" ps lt obtain ni where ni: "bencode_next_index buf i = Some ni"
      and l: "bencode_next_index_loop buf ni = Some j"
      by (auto split: option.splits)
    from "2.IH"(1)[OF _ False ni] lt have "i < ni" by simp
    moreover from "2.IH"(2)[OF _ False ni l] lt have "ni < j \<and> j \<le> int (length buf)" by simp
    ultimately show ?thesis by simp
  qed
qed

termination bencode_next_index
proof (relation "measure (\<lambda>x. case x of
          Inl (buf, i) \<Rightarrow> 2 * nat (int (length buf) - i)
        | Inr (buf, i) \<Rightarrow> 2 * nat (int (length buf) - i) + 1)", goal_cases)
  case 1
  show ?case by simp
next
  case (2 buf i c)
  then show ?case by simp
next
  case (3 buf i)
  then show ?case by simp
next
  case (4 buf i ni)
  from bencode_next_index_partial(1)[OF 4(4) 4(3)] 4(1) show ?case by simp
qed

lemma bencode_next_index_dom_all:
  "bencode_next_index_bencode_next_index_loop_dom (Inl (buf, i))"
  "bencode_next_index_bencode_next_index_loop_dom (Inr (buf, i))"
proof (induction buf i and buf i rule: bencode_next_index_bencode_next_index_loop.induct)
  case (1 buf i)
  show ?case
    by (rule bencode_next_index_bencode_next_index_loop.domintros(1)) (use 1 in auto)
next
  case (2 buf i)
  show ?case
    by (rule bencode_next_index_bencode_next_index_loop.domintros(2)) (use 2 in auto)
qed

section \<open>dht.py: the announce_peer handler\<close>

text \<open>
  Python operations on message values. \<open>Inl\<close> is the exception raised.
  \<^verbatim>\<open>v[k]\<close> with a text key succeeds on a dictionary that has the key; a dictionary without
  it raises \<^verbatim>\<open>KeyError\<close>, every other value \<^verbatim>\<open>TypeError\<close>.
\<close>

fun py_getitem :: "pyval \<Rightarrow> string \<Rightarrow> exn + pyval" where
  "py_getitem (PDict kvs) k = (case map_of kvs k of None \<Rightarrow> Inl KeyError | Some v \<Rightarrow> Inr v)"
| "py_getitem _ k = Inl TypeError"

text \<open>\<^verbatim>\<open>v[:n]\<close> for \<open>n \<ge> 0\<close>: sequences are cut, integers and dictionaries raise.\<close>

fun py_take :: "pyval \<Rightarrow> nat \<Rightarrow> exn + pyval" where
  "py_take (PBytes b) n = Inr (PBytes (take n b))"
| "py_take (PStr s) n = Inr (PStr (take n s))"
| "py_take (PList xs) n = Inr (PList (take n xs))"
| "py_take _ n = Inl TypeError"

text \<open>\<^verbatim>\<open>k in v\<close> for a text key \<open>k\<close>.\<close>

fun py_contains :: "pyval \<Rightarrow> string \<Rightarrow> exn + bool" where
  "py_contains (PDict kvs) k = Inr (k \<in> fst ` set kvs)"
| "py_contains (PList xs) k = Inr (PStr k \<in> set xs)"
| "py_contains (PStr s) k = Inr (list_ex (\<lambda>i. take (length k) (drop i s) = k) [0..<Suc (length s)])"
| "py_contains _ k = Inl TypeError"

text \<open>\<^verbatim>\<open>port < 1 or port > 65535\<close>: only integers compare with integers.\<close>

fun port_out_of_range :: "pyval \<Rightarrow> exn + bool" where
  "port_out_of_range (PInt p) = Inr (p < 1 \<or> p > 65535)"
| "port_out_of_range _ = Inl TypeError"

text \<open>\<^verbatim>\<open>get_neighbor(nid, self.nid)\<close> on a message value: only bytes can be joined with bytes.\<close>

fun get_neighbor_val :: "pyval \<Rightarrow> bytes \<Rightarrow> exn + pyval" where
  "get_neighbor_val (PBytes n) own = Inr (PBytes (get_neighbor n own 10))"
| "get_neighbor_val _ own = Inl TypeError"

definition bind_exn :: "exn + 'a \<Rightarrow> ('a \<Rightarrow> exn + 'b) \<Rightarrow> exn + 'b" where
  "bind_exn r f = (case r of Inl e \<Rightarrow> Inl e | Inr v \<Rightarrow> f v)"

text \<open>
  What a handler does to the outside: calls of \<^verbatim>\<open>self.master.log_infohash\<close> and calls of
  \<^verbatim>\<open>self.send_krpc\<close>, in order.
\<close>

datatype event = LogInfohash pyval "string \<times> pyval" | SendKrpc pyval address

text \<open>
  \<^verbatim>\<open>ok(msg, address)\<close>: the reply, and the exception that leaves the method (only
  \<^verbatim>\<open>KeyError\<close> is caught).
\<close>

definition ok :: "dht_process \<Rightarrow> pyval \<Rightarrow> address \<Rightarrow> event list \<times> exn option" where
  "ok self msg address =
     (case bind_exn (py_getitem msg ''t'') (\<lambda>tid.
           bind_exn (py_getitem msg ''a'') (\<lambda>a.
           bind_exn (py_getitem a ''id'') (\<lambda>nid_v.
           bind_exn (get_neighbor_val nid_v (nid self)) (\<lambda>nb.
             Inr (PDict [(''t'', tid), (''y'', PStr ''r''), (''r'', PDict [(''id'', nb)])]))))) of
        Inr reply \<Rightarrow> ([SendKrpc reply address], None)
      | Inl KeyError \<Rightarrow> ([], None)
      | Inl e \<Rightarrow> ([], Some e))"

text \<open>
  The \<^verbatim>\<open>try\<close> block of \<^verbatim>\<open>on_announce_peer_request\<close>: the \<^verbatim>\<open>log_infohash\<close> calls it makes, or
  the exception it raises (before any call). The port of a candidate is the message value
  \<^verbatim>\<open>a.port\<close> or the integer source port.
\<close>

definition announce_try :: "dht_process \<Rightarrow> pyval \<Rightarrow> address \<Rightarrow> exn + event list" where
  "announce_try self msg address =
     bind_exn (py_getitem msg ''a'') (\<lambda>a.
     bind_exn (py_getitem a ''info_hash'') (\<lambda>infohash.
     bind_exn (py_getitem a ''token'') (\<lambda>token.
     bind_exn (py_take infohash (token_length self)) (\<lambda>prefix.
       if prefix \<noteq> token then Inr []
       else
         bind_exn (py_contains a ''implied_port'') (\<lambda>has_implied.
         bind_exn (if has_implied then py_getitem a ''implied_port'' else Inr (PInt 0)) (\<lambda>implied.
         bind_exn
           (if has_implied \<and> implied \<noteq> PInt 0 then Inr (Some (PInt (snd address)))
            else bind_exn (py_getitem a ''port'') (\<lambda>p.
                 bind_exn (port_out_of_range p) (\<lambda>out. Inr (if out then None else Some p))))
           (\<lambda>chosen.
              case chosen of
                None \<Rightarrow> Inr []
              | Some p \<Rightarrow>
                  let candidates = [p] @ (if PInt (snd address) \<noteq> p then [PInt (snd address)] else [])
                  in Inr (map (\<lambda>q. LogInfohash infohash (fst address, q)) candidates))))))))"

text \<open>
  \<^verbatim>\<open>on_announce_peer_request\<close>: \<^verbatim>\<open>except Exception: pass\<close> swallows what the \<^verbatim>\<open>try\<close> block
  raises, and \<^verbatim>\<open>finally\<close> runs \<^verbatim>\<open>ok\<close>.
\<close>

definition on_announce_peer_request ::
  "dht_process \<Rightarrow> pyval \<Rightarrow> address \<Rightarrow> event list \<times> exn option" where
  "on_announce_peer_request self msg address =
     (let logged = (case announce_try self msg address of Inl e \<Rightarrow> [] | Inr evs \<Rightarrow> evs);
          (sent, exc) = ok self msg address
      in (logged @ sent, exc))"

text \<open>The calls of \<^verbatim>\<open>log_infohash\<close> among the events.\<close>

fun is_log :: "event \<Rightarrow> bool" where
  "is_log (LogInfohash ih a) = True"
| "is_log (SendKrpc m a) = False"

text \<open>An \<^verbatim>\<open>announce_peer\<close> query after \<^verbatim>\<open>to_str\<close>, built from its fields.\<close>

definition announce_msg :: "pyval \<Rightarrow> pyval \<Rightarrow> pyval \<Rightarrow> pyval \<Rightarrow> (string \<times> pyval) list \<Rightarrow> pyval" where
  "announce_msg tid peer_id infohash token extra =
     PDict [(''t'', tid), (''y'', PStr ''q''), (''q'', PStr ''announce_peer''),
            (''a'', PDict ([(''id'', peer_id), (''info_hash'', infohash), (''token'', token)] @ extra))]"

definition spider :: dht_process where
  "spider = \<lparr>nid = replicate 20 CHR ''b'', ip = ''0.0.0.0'', port = 6882, token_length = 2, tid_length = 2\<rparr>"

section \<open>bt_metadata.py: the metadata fetcher\<close>

text \<open>Decoded bencode values, as \<^verbatim>\<open>bencodepy.decode\<close> returns them: dictionary keys are bytes.\<close>

datatype bvalue =
  BInt int
| BBytes bytes
| BList "bvalue list"
| BDict "(bytes \<times> bvalue) list"

text \<open>
  What \<^verbatim>\<open>download_metadata\<close> takes from outside the repository: \<^verbatim>\<open>bencodepy.decode\<close> (\<open>None\<close>
  when it raises), \<^verbatim>\<open>hashlib.sha1(...).digest()\<close>, and the record that is built for
  \<^verbatim>\<open>storage_info_fn\<close> from the decoded metadata, the infohash and the address (text
  decoding, not modelled further).
\<close>

record 'i lib =
  bdecode :: "bytes \<Rightarrow> bvalue option"
  sha1 :: "bytes \<Rightarrow> bytes"
  mk_info :: "bvalue \<Rightarrow> bytes \<Rightarrow> address \<Rightarrow> 'i"

text \<open>
  What the network and the callback do during one call, step by step: for each step either
  the exception raised while sending or receiving, or the bytes the peer delivers.
  \<open>storage_exn\<close> is the exception \<^verbatim>\<open>storage_info_fn\<close> raises, if any.
\<close>

record peer_io =
  connect_exn :: "exn option"
  recv_handshake :: "exn + bytes"
  recv_len :: "exn + bytes"
  recv_body :: "exn + bytes"
  recv_piece :: "nat \<Rightarrow> exn + bytes"
  storage_exn :: "exn option"

text \<open>The \<^verbatim>\<open>except\<close> clauses of \<^verbatim>\<open>download_metadata\<close>.\<close>

fun status_of_exn :: "exn \<Rightarrow> string" where
  "status_of_exn SocketTimeout = ''timeout''"
| "status_of_exn OSError = ''os_error''"
| "status_of_exn _ = ''exception''"

text \<open>\<^verbatim>\<open>unpack(">I", b)[0]\<close> for four bytes.\<close>

definition be32 :: "bytes \<Rightarrow> nat" where
  "be32 b = foldl (\<lambda>a c. a * 256 + of_char c) 0 b"

definition BT_PROTOCOL :: bytes where
  "BT_PROTOCOL = ''BitTorrent protocol''"

definition check_handshake :: "bytes \<Rightarrow> bytes \<Rightarrow> bool" where
  "check_handshake packet self_infohash =
     (if length packet < 1 then False
      else
        let pstrlen = (of_char (packet ! 0) :: nat) in
        if pstrlen \<noteq> length BT_PROTOCOL then False
        else if length packet < 1 + pstrlen + 8 + 20 then False
        else if take pstrlen (drop 1 packet) \<noteq> BT_PROTOCOL then False
        else take 20 (drop (1 + pstrlen + 8) packet) = self_infohash)"

text \<open>\<^verbatim>\<open>d.get(k)\<close> on a decoded value that passed \<^verbatim>\<open>isinstance(d, dict)\<close>.\<close>

fun bdict_get :: "bvalue \<Rightarrow> bytes \<Rightarrow> bvalue option" where
  "bdict_get (BDict kvs) k = map_of kvs k"
| "bdict_get _ k = None"

text \<open>
  \<^verbatim>\<open>parse_ext_handshake(packet)\<close>: \<open>None\<close> is the pair \<^verbatim>\<open>(None, None)\<close>, \<open>Some (ut, size)\<close> the
  pair of integers.
\<close>

definition parse_ext_handshake :: "'i lib \<Rightarrow> bytes \<Rightarrow> (int \<times> int) option" where
  "parse_ext_handshake lib packet =
     (if length packet < 6 then None
      else
        let msg_len = be32 (take 4 packet) in
        if msg_len \<le> 2 then None
        else if length packet < 4 + msg_len then None
        else if (of_char (packet ! 4) :: nat) \<noteq> 20 then None
        else if (of_char (packet ! 5) :: nat) \<noteq> 0 then None
        else
          (case bdecode lib (take (4 + msg_len - 6) (drop 6 packet)) of
             None \<Rightarrow> None
           | Some (BDict d) \<Rightarrow>
               (case (case map_of d ''m'' of Some (BDict m) \<Rightarrow> map_of m ''ut_metadata'' | _ \<Rightarrow> None,
                      map_of d ''metadata_size'') of
                  (Some (BInt ut), Some (BInt msize)) \<Rightarrow> if msize > 0 then Some (ut, msize) else None
                | _ \<Rightarrow> None)
           | Some _ \<Rightarrow> None))"

text \<open>
  \<^verbatim>\<open>int(math.ceil(metadata_size / (16.0 * 1024)))\<close>. The conversion of the integer to a
  float raises \<^verbatim>\<open>OverflowError\<close> from \<open>2^1024 - 2^970\<close> on. Below \<open>2^53\<close> the float
  computation is exact; between the two bounds the float result can differ from the
  integer one below, and both are far above 4096, which is all that is asked of it.
\<close>

definition metadata_pieces :: "int \<Rightarrow> exn + int" where
  "metadata_pieces msize =
     (if msize \<ge> 2 ^ 1024 - 2 ^ 970 then Inl OtherException
      else Inr ((msize + 16383) div 16384))"

text \<open>\<^verbatim>\<open>blob.find(pat)\<close>: the first position where the pattern occurs.\<close>

fun find_sub :: "bytes \<Rightarrow> bytes \<Rightarrow> nat option" where
  "find_sub pat [] = (if pat = [] then Some 0 else None)"
| "find_sub pat (x # xs) =
     (if take (length pat) (x # xs) = pat then Some 0 else map_option Suc (find_sub pat xs))"

text \<open>\<^verbatim>\<open>split_ut_metadata_message(buf)\<close>: \<open>None\<close> is \<^verbatim>\<open>(None, None)\<close>.\<close>

definition split_ut_metadata_message ::
  "'i lib \<Rightarrow> bytes \<Rightarrow> ((bytes \<times> bvalue) list \<times> bytes) option" where
  "split_ut_metadata_message lib buf =
     (let start = py_find CHR ''d'' buf 0 in
      if start = -1 then None
      else
        (case bencode_next_index buf start of
           None \<Rightarrow> None
         | Some e \<Rightarrow>
             (case bdecode lib (py_slice buf start e) of
                Some (BDict header) \<Rightarrow> Some (header, drop (nat e) buf)
              | _ \<Rightarrow> None)))"

text \<open>
  One round of the piece loop after the request: the payload captured from the blob that
  \<^verbatim>\<open>recvall\<close> returned, as a list of none or one.
\<close>

definition extract_piece :: "'i lib \<Rightarrow> bytes \<Rightarrow> nat \<Rightarrow> bytes list" where
  "extract_piece lib blob piece =
     (if blob = [] then []
      else
        (case find_sub ''ee'' blob of
           Some idx \<Rightarrow> [drop (idx + 2) blob]
         | None \<Rightarrow>
             (case split_ut_metadata_message lib blob of
                None \<Rightarrow> []
              | Some (header, payload) \<Rightarrow>
                  if map_of header ''msg_type'' \<noteq> Some (BInt 1) then []
                  else if map_of header ''piece'' \<noteq> Some (BInt (int piece)) then []
                  else [payload])))"

text \<open>
  \<^verbatim>\<open>for piece in range(pieces)\<close>. \<^verbatim>\<open>request_metadata\<close> builds \<^verbatim>\<open>bytes([ut_metadata])\<close>, which
  raises \<^verbatim>\<open>ValueError\<close> outside 0 to 255.
\<close>

fun piece_loop :: "'i lib \<Rightarrow> peer_io \<Rightarrow> int \<Rightarrow> nat list \<Rightarrow> bytes list \<Rightarrow> exn + bytes list" where
  "piece_loop lib io ut [] parts = Inr parts"
| "piece_loop lib io ut (piece # rest) parts =
     (if ut < 0 \<or> ut > 255 then Inl ValueError
      else
        (case recv_piece io piece of
           Inl e \<Rightarrow> Inl e
         | Inr blob \<Rightarrow> piece_loop lib io ut rest (parts @ extract_piece lib blob piece)))"

text \<open>
  \<^verbatim>\<open>download_metadata\<close> up to the end of the piece loop: the status it returns early, or
  the captured payloads in piece order. \<^verbatim>\<open>recv_exact(sock, n, timeout)\<close> returns at most
  \<open>n\<close> bytes of what the peer delivers.
\<close>

definition fetch_parts :: "'i lib \<Rightarrow> peer_io \<Rightarrow> bytes \<Rightarrow> string + bytes list" where
  "fetch_parts lib io infohash =
     (case connect_exn io of
        Some e \<Rightarrow> Inl (status_of_exn e)
      | None \<Rightarrow>
     (case recv_handshake io of
        Inl e \<Rightarrow> Inl (status_of_exn e)
      | Inr delivered \<Rightarrow>
          if \<not> check_handshake (take 68 delivered) infohash then Inl ''handshake_fail''
          else
     (case recv_len io of
        Inl e \<Rightarrow> Inl (status_of_exn e)
      | Inr delivered_len \<Rightarrow>
          let lp = take 4 delivered_len in
          if length lp \<noteq> 4 then Inl ''ext_fail''
          else
            let msg_len = be32 lp in
            if msg_len \<le> 0 \<or> msg_len > 2000000 then Inl ''ext_fail''
            else
     (case recv_body io of
        Inl e \<Rightarrow> Inl (status_of_exn e)
      | Inr delivered_body \<Rightarrow>
          let body = take msg_len delivered_body in
          if length body \<noteq> msg_len then Inl ''ext_fail''
          else
            (case parse_ext_handshake lib (lp @ body) of
               None \<Rightarrow> Inl ''ext_fail''
             | Some (ut_metadata, metadata_size) \<Rightarrow>
                 (case metadata_pieces metadata_size of
                    Inl e \<Rightarrow> Inl (status_of_exn e)
                  | Inr pieces \<Rightarrow>
                      if pieces \<le> 0 \<or> pieces > 4096 then Inl ''bad_pieces''
                      else
                        (case piece_loop lib io ut_metadata [0..<nat pieces] [] of
                           Inl e \<Rightarrow> Inl (status_of_exn e)
                         | Inr parts \<Rightarrow> Inr parts)))))))"

text \<open>
  The rest of \<^verbatim>\<open>download_metadata\<close>: the status and the calls of \<^verbatim>\<open>storage_info_fn\<close>
  (record, torrent bytes, address).
\<close>

definition finish ::
  "'i lib \<Rightarrow> peer_io \<Rightarrow> address \<Rightarrow> bytes \<Rightarrow> bytes list \<Rightarrow> string \<times> ('i \<times> bytes \<times> address) list" where
  "finish lib io address infohash metadata_parts =
     (if metadata_parts = [] then (''no_pieces'', [])
      else
        let metadata = concat metadata_parts in
        if upper (py_hex (sha1 lib metadata)) \<noteq> upper (py_hex infohash) then (''sha1_mismatch'', [])
        else
          (case bdecode lib metadata of
             None \<Rightarrow> (''exception'', [])
           | Some meta_data \<Rightarrow>
               let torrent_bytes = ''d4:info'' @ metadata @ ''e'';
                   call = (mk_info lib meta_data infohash address, torrent_bytes, address)
               in (case storage_exn io of
                     Some e \<Rightarrow> (status_of_exn e, [call])
                   | None \<Rightarrow> (''ok'', [call]))))"

definition download_metadata ::
  "'i lib \<Rightarrow> peer_io \<Rightarrow> address \<Rightarrow> bytes \<Rightarrow> string \<times> ('i \<times> bytes \<times> address) list" where
  "download_metadata lib io address infohash =
     (case fetch_parts lib io infohash of
        Inl status \<Rightarrow> (status, [])
      | Inr parts \<Rightarrow> finish lib io address infohash parts)"

text \<open>
  The run has come to the extension handshake: the connection and the BitTorrent handshake
  succeeded, the four bytes \<open>lp\<close> of the length prefix arrived, the length is within bounds
  and the \<open>body\<close> arrived in full.
\<close>

definition ext_handshake_received :: "peer_io \<Rightarrow> bytes \<Rightarrow> bytes \<Rightarrow> bytes \<Rightarrow> bool" where
  "ext_handshake_received io infohash lp body =
     (connect_exn io = None
      \<and> (case recv_handshake io of Inl e \<Rightarrow> False | Inr hs \<Rightarrow> check_handshake (take 68 hs) infohash)
      \<and> recv_len io = Inr lp \<and> length lp = 4 \<and> 0 < be32 lp \<and> be32 lp \<le> 2000000
      \<and> recv_body io = Inr body \<and> length body = be32 lp)"

text \<open>
  A peer for the examples: it answers the handshake for \<open>infohash\<close>, sends an extension
  handshake with the given bencoded \<open>payload\<close> (shorter than 254 bytes), and delivers
  \<open>blobs i\<close> after the request for piece \<open>i\<close>.
\<close>

definition example_peer :: "bytes \<Rightarrow> bytes \<Rightarrow> (nat \<Rightarrow> bytes) \<Rightarrow> peer_io" where
  "example_peer infohash payload blobs =
     \<lparr>connect_exn = None,
      recv_handshake = Inr (char_of (19 :: nat) # BT_PROTOCOL @ replicate 8 (char_of (0 :: nat))
                             @ infohash @ replicate 20 CHR ''p''),
      recv_len = Inr [char_of (0 :: nat), char_of (0 :: nat), char_of (0 :: nat),
                      char_of (2 + length payload)],
      recv_body = Inr (char_of (20 :: nat) # char_of (0 :: nat) # payload),
      recv_piece = (\<lambda>i. Inr (blobs i)),
      storage_exn = None\<rparr>"

text \<open>
  A library for the examples: a decoder that knows the byte strings of a table, a digest
  function that returns a constant, and no record for the storage callback.
\<close>

definition example_lib :: "(bytes \<times> bvalue) list \<Rightarrow> bytes \<Rightarrow> unit lib" where
  "example_lib table digest =
     \<lparr>bdecode = map_of table,
      sha1 = (\<lambda>b. digest),
      mk_info = (\<lambda>meta_data infohash address. ())\<rparr>"

definition ext_payload :: "int \<Rightarrow> int \<Rightarrow> bvalue" where
  "ext_payload ut msize =
     BDict [(''m'', BDict [(''ut_metadata'', BInt ut)]), (''metadata_size'', BInt msize)]"

section \<open>magnet.py: the bencode codec\<close>

text \<open>
  \<^verbatim>\<open>str(x)\<close> for an integer: decimal digits, with a minus sign for a negative one. The
  interpreter refuses a conversion between \<^verbatim>\<open>int\<close> and \<^verbatim>\<open>str\<close> of more than 4300 digits (its
  default limit) with a \<^verbatim>\<open>ValueError\<close>, here \<open>None\<close>.
\<close>

definition max_str_digits :: nat where
  "max_str_digits = 4300"

fun dec_nat :: "nat \<Rightarrow> string" where
  "dec_nat n = (if n < 10 then [char_of (48 + n)] else dec_nat (n div 10) @ [char_of (48 + n mod 10)])"

declare dec_nat.simps [simp del]

definition py_str_int :: "int \<Rightarrow> string option" where
  "py_str_int x =
     (let digits = dec_nat (nat \<bar>x\<bar>) in
      if length digits > max_str_digits then None
      else Some (if x < 0 then CHR ''-'' # digits else digits))"

definition py_int_limited :: "bytes \<Rightarrow> int option" where
  "py_int_limited s = (if length (filter is_digit s) > max_str_digits then None else py_int s)"

text \<open>
  The values \<^verbatim>\<open>_bencode\<close> accepts, without text strings: integers, booleans (instances of
  \<^verbatim>\<open>int\<close> in Python), byte strings, lists, and dictionaries with byte-string keys. A
  dictionary is the list of its items in insertion order.
\<close>

datatype mvalue =
  MInt int
| MBool bool
| MBytes bytes
| MList "mvalue list"
| MDict "(bytes \<times> mvalue) list"

text \<open>\<^verbatim>\<open>b"".join(...)\<close> over pieces that may each raise: the first exception ends it.\<close>

fun join_options :: "bytes option list \<Rightarrow> bytes option" where
  "join_options [] = Some []"
| "join_options (None # rest) = None"
| "join_options (Some x # rest) = map_option (\<lambda>r. x @ r) (join_options rest)"

text \<open>The byte-string branch of \<^verbatim>\<open>_bencode\<close>: \<^verbatim>\<open>str(len(b)).encode("ascii") + b":" + b\<close>.\<close>

definition bencode_bytes :: "bytes \<Rightarrow> bytes option" where
  "bencode_bytes b = map_option (\<lambda>s. s @ '':'' @ b) (py_str_int (int (length b)))"

text \<open>
  \<^verbatim>\<open>_bencode(x)\<close>; \<open>None\<close> is the \<^verbatim>\<open>ValueError\<close> of an integer conversion beyond the digit
  limit. \<^verbatim>\<open>str(True)\<close> is \<^verbatim>\<open>True\<close>. \<^verbatim>\<open>items.sort(key=lambda kv: kv[0])\<close> is a stable sort by the key
  bytes in lexicographic order. The bound of the interpreter on the depth of recursion is
  not part of the model.
\<close>

fun bencode_m :: "mvalue \<Rightarrow> bytes option" where
  "bencode_m (MInt x) = map_option (\<lambda>s. ''i'' @ s @ ''e'') (py_str_int x)"
| "bencode_m (MBool b) = Some (''i'' @ (if b then ''True'' else ''False'') @ ''e'')"
| "bencode_m (MBytes b) = bencode_bytes b"
| "bencode_m (MList xs) = map_option (\<lambda>j. ''l'' @ j @ ''e'') (join_options (map bencode_m xs))"
| "bencode_m (MDict kvs) =
     map_option (\<lambda>j. ''d'' @ j @ ''e'')
       (join_options
          (map (\<lambda>kv. case bencode_bytes (fst kv) of
                        None \<Rightarrow> None
                      | Some a \<Rightarrow> map_option (\<lambda>b. a @ b) (bencode_m (snd kv)))
               (sort_key fst kvs)))"

text \<open>
  \<^verbatim>\<open>data.index(c, i)\<close> for one byte: the first position from \<open>i\<close> on, \<open>None\<close> for the
  \<^verbatim>\<open>ValueError\<close> when there is none.
\<close>

definition py_index_of :: "char \<Rightarrow> bytes \<Rightarrow> nat \<Rightarrow> nat option" where
  "py_index_of c data i = map_option (\<lambda>k. i + k) (find_char c (drop i data))"

text \<open>\<^verbatim>\<open>out[k] = v\<close> on a dictionary: a known key keeps its place, a new one goes last.\<close>

fun dict_set :: "(bytes \<times> mvalue) list \<Rightarrow> bytes \<Rightarrow> mvalue \<Rightarrow> (bytes \<times> mvalue) list" where
  "dict_set [] k v = [(k, v)]"
| "dict_set ((k', v') # kvs) k v = (if k' = k then (k, v) # kvs else (k', v') # dict_set kvs k v)"

text \<open>
  \<^verbatim>\<open>_bdecode(data, i)\<close> for an index \<open>i \<ge> 0\<close>; \<open>None\<close> stands for the exception raised
  (\<^verbatim>\<open>ValueError\<close> from \<^verbatim>\<open>index\<close>, from \<^verbatim>\<open>int\<close>, for a key that is no byte string, and for an
  invalid first byte). The two \<^verbatim>\<open>while\<close> loops are \<open>bdecode_list\<close> and \<open>bdecode_dict\<close>, with
  the values collected so far. The length of a byte string starts with a digit, so it is
  not negative.
\<close>

function (domintros) bdecode_m :: "bytes \<Rightarrow> nat \<Rightarrow> (mvalue \<times> nat) option"
  and bdecode_list :: "bytes \<Rightarrow> nat \<Rightarrow> mvalue list \<Rightarrow> (mvalue list \<times> nat) option"
  and bdecode_dict :: "bytes \<Rightarrow> nat \<Rightarrow> (bytes \<times> mvalue) list \<Rightarrow> ((bytes \<times> mvalue) list \<times> nat) option" where
  "bdecode_m data i =
     (let c = take 1 (drop i data) in
      if c = ''i'' then
        (case py_index_of CHR ''e'' data i of
           None \<Rightarrow> None
         | Some j \<Rightarrow>
             (case py_int_limited (take (j - (i + 1)) (drop (i + 1) data)) of
                None \<Rightarrow> None
              | Some x \<Rightarrow> Some (MInt x, j + 1)))
      else if c = ''l'' then
        (case bdecode_list data (i + 1) [] of
           None \<Rightarrow> None
         | Some (out, i') \<Rightarrow> Some (MList out, i' + 1))
      else if c = ''d'' then
        (case bdecode_dict data (i + 1) [] of
           None \<Rightarrow> None
         | Some (out, i') \<Rightarrow> Some (MDict out, i' + 1))
      else if length c = 1 \<and> is_digit (hd c) then
        (case py_index_of CHR '':'' data i of
           None \<Rightarrow> None
         | Some j \<Rightarrow>
             (case py_int_limited (take (j - i) (drop i data)) of
                None \<Rightarrow> None
              | Some n \<Rightarrow>
                  let start = j + 1; e = start + nat n
                  in Some (MBytes (take (nat n) (drop start data)), e)))
      else None)"
| "bdecode_list data i out =
     (if take 1 (drop i data) = ''e'' then Some (out, i)
      else
        (case bdecode_m data i of
           None \<Rightarrow> None
         | Some (v, i') \<Rightarrow> bdecode_list data i' (out @ [v])))"
| "bdecode_dict data i out =
     (if take 1 (drop i data) = ''e'' then Some (out, i)
      else
        (case bdecode_m data i of
           None \<Rightarrow> None
         | Some (MBytes k, i') \<Rightarrow>
             (case bdecode_m data i' of
                None \<Rightarrow> None
              | Some (v, i'') \<Rightarrow> bdecode_dict data i'' (dict_set out k v))
         | Some (_, i') \<Rightarrow> None))"
  by pat_completeness auto

text \<open>
  Termination: a decoded value ends beyond the index where it starts, and a loop never
  moves back, so both loops move forward in data of fixed length.
\<close>

lemma py_index_of_ge: "py_index_of c data i = Some j \<Longrightarrow> i \<le> j"
  by (auto simp: py_index_of_def)

lemma take1_nonempty: "take 1 (drop i data) = [c] \<Longrightarrow> i < length data"
  by (cases "i < length data") auto

lemma bdecode_m_partial:
  "bdecode_m_bdecode_list_bdecode_dict_dom (Inl (data, i)) \<Longrightarrow>
     bdecode_m data i = Some (v, j) \<Longrightarrow> i < j \<and> i < length data"
  "bdecode_m_bdecode_list_bdecode_dict_dom (Inr (Inl (data, i, out))) \<Longrightarrow>
     bdecode_list data i out = Some (r, j) \<Longrightarrow> i \<le> j"
  "bdecode_m_bdecode_list_bdecode_dict_dom (Inr (Inr (data, i, dout))) \<Longrightarrow>
     bdecode_dict data i dout = Some (dr, j) \<Longrightarrow> i \<le> j"
proof (induction arbitrary: v j and r j and dr j rule: bdecode_m_bdecode_list_bdecode_dict.pinduct)
  case (1 data i)
  note ps = bdecode_m.psimps[OF "1.hyps"]
  let ?c = "take 1 (drop i data)"
  from "1.prems" ps have ne: "?c \<noteq> []"
    by (auto simp: Let_def split: if_splits)
  then have lt: "i < length data" by (cases "i < length data") auto
  consider (int) "?c = ''i''" | (lst) "?c \<noteq> ''i''" "?c = ''l''"
    | (dct) "?c \<noteq> ''i''" "?c \<noteq> ''l''" "?c = ''d''"
    | (str) "?c \<noteq> ''i''" "?c \<noteq> ''l''" "?c \<noteq> ''d''"
    by blast
  then have "i < j"
  proof cases
    case int
    with "1.prems" ps obtain k where "py_index_of CHR ''e'' data i = Some k" "j = k + 1"
      by (auto simp: Let_def split: option.splits)
    with py_index_of_ge[of "CHR ''e''" data i k] show ?thesis by simp
  next
    case lst
    with "1.prems" ps obtain out i' where l: "bdecode_list data (i + 1) [] = Some (out, i')" "j = i' + 1"
      by (auto simp: Let_def split: option.splits)
    from "1.IH"(1)[OF refl lst l(1)] l(2) show ?thesis by simp
  next
    case dct
    with "1.prems" ps obtain out i' where l: "bdecode_dict data (i + 1) [] = Some (out, i')" "j = i' + 1"
      by (auto simp: Let_def split: option.splits)
    from "1.IH"(2)[OF refl dct l(1)] l(2) show ?thesis by simp
  next
    case str
    with "1.prems" ps obtain k n where "py_index_of CHR '':'' data i = Some k" "j = k + 1 + nat n"
      by (auto simp: Let_def split: option.splits if_splits)
    with py_index_of_ge[of "CHR '':''" data i k] show ?thesis by simp
  qed
  with lt show ?case by simp
next
  case (2 data i out)
  note ps = bdecode_list.psimps[OF "2.hyps"]
  show ?case
  proof (cases "take 1 (drop i data) = ''e''")
    case True
    with "2.prems" ps show ?thesis by simp
  next
    case False
    with "2.prems" ps obtain v i' where d: "bdecode_m data i = Some (v, i')"
      and l: "bdecode_list data i' (out @ [v]) = Some (r, j)"
      by (auto split: option.splits)
    from "2.IH"(1)[OF False d] "2.IH"(2)[OF False d refl l] show ?thesis by simp
  qed
next
  case (3 data i dout)
  note ps = bdecode_dict.psimps[OF "3.hyps"]
  show ?case
  proof (cases "take 1 (drop i data) = ''e''")
    case True
    with "3.prems" ps show ?thesis by simp
  next
    case False
    with "3.prems" ps obtain k i' v i'' where d1: "bdecode_m data i = Some (MBytes k, i')"
      and d2: "bdecode_m data i' = Some (v, i'')"
      and l: "bdecode_dict data i'' (dict_set dout k v) = Some (dr, j)"
      by (auto split: option.splits mvalue.splits)
    from "3.IH"(1)[OF False d1] "3.IH"(2)[OF False d1 refl refl d2]
      "3.IH"(3)[OF False d1 refl refl d2 refl l]
    show ?thesis by simp
  qed
qed

termination bdecode_m
proof (relation "measure (\<lambda>x. case x of
          Inl (data, i) \<Rightarrow> 2 * (length data - i)
        | Inr (Inl (data, i, out)) \<Rightarrow> 2 * (length data - i) + 1
        | Inr (Inr (data, i, out)) \<Rightarrow> 2 * (length data - i) + 1)", goal_cases)
  case 1
  show ?case by simp
next
  case (2 data i c)
  from take1_nonempty[of i data "CHR ''l''"] 2 show ?case by simp
next
  case (3 data i c)
  from take1_nonempty[of i data "CHR ''d''"] 3 show ?case by simp
next
  case (4 data i out)
  show ?case by simp
next
  case (5 data i out x2 v i')
  from bdecode_m_partial(1)[OF 5(4), of v i'] 5 show ?case by auto
next
  case (6 data i out)
  show ?case by simp
next
  case (7 data i out x2 v i' k)
  from bdecode_m_partial(1)[OF 7(5), of v i'] 7 show ?case by auto
next
  case (8 data i out x2 v i' k x2a v' i'')
  then have d1: "bdecode_m data i = Some (MBytes k, i')" and d2: "bdecode_m data i' = Some (v', i'')"
    and dom1: "bdecode_m_bdecode_list_bdecode_dict_dom (Inl (data, i))"
    and dom2: "bdecode_m_bdecode_list_bdecode_dict_dom (Inl (data, i'))"
    by auto
  from bdecode_m_partial(1)[OF dom1 d1] bdecode_m_partial(1)[OF dom2 d2] show ?case by auto
qed

declare bdecode_m.simps [simp del] bdecode_list.simps [simp del] bdecode_dict.simps [simp del]

text \<open>
  The same value with the items of every dictionary in the order of their keys. Python
  compares dictionaries without regard to the order of their items, so this is the value
  that \<^verbatim>\<open>==\<close> identifies with the given one.
\<close>

fun in_key_order :: "mvalue \<Rightarrow> mvalue" where
  "in_key_order (MList xs) = MList (map in_key_order xs)"
| "in_key_order (MDict kvs) = MDict (map (\<lambda>kv. (fst kv, in_key_order (snd kv))) (sort_key fst kvs))"
| "in_key_order v = v"

text \<open>The keys of every dictionary in the value are distinct, as in a Python dictionary.\<close>

fun keys_distinct :: "mvalue \<Rightarrow> bool" where
  "keys_distinct (MList xs) = list_all keys_distinct xs"
| "keys_distinct (MDict kvs) = (distinct (map fst kvs) \<and> list_all (\<lambda>kv. keys_distinct (snd kv)) kvs)"
| "keys_distinct v = True"

text \<open>No boolean occurs in the value.\<close>

fun no_bool :: "mvalue \<Rightarrow> bool" where
  "no_bool (MBool b) = False"
| "no_bool (MList xs) = list_all no_bool xs"
| "no_bool (MDict kvs) = list_all (\<lambda>kv. no_bool (snd kv)) kvs"
| "no_bool v = True"

text \<open>
  Every integer of the value, and the length of every byte string and key, has a decimal
  text within the digit limit of the interpreter.
\<close>

fun within_digit_limit :: "mvalue \<Rightarrow> bool" where
  "within_digit_limit (MInt x) = (length (dec_nat (nat \<bar>x\<bar>)) \<le> max_str_digits)"
| "within_digit_limit (MBool b) = True"
| "within_digit_limit (MBytes b) = (length (dec_nat (length b)) \<le> max_str_digits)"
| "within_digit_limit (MList xs) = list_all within_digit_limit xs"
| "within_digit_limit (MDict kvs) =
     list_all (\<lambda>kv. length (dec_nat (length (fst kv))) \<le> max_str_digits \<and> within_digit_limit (snd kv)) kvs"

text \<open>A dictionary for the examples, with its keys out of order.\<close>

definition example_dict :: mvalue where
  "example_dict = MDict [(''b'', MInt (- 5)), (''a'', MList [MBytes ''xy'', MDict []])]"

section \<open>Outbound find_node identifiers\<close>

lemma query_id_send_find_node:
  "query_id (fst (send_find_node self addr nid_opt tid target)) =
     Some (PBytes (case nid_opt of None \<Rightarrow> nid self
                   | Some n \<Rightarrow> if n \<noteq> [] then get_neighbor n (nid self) 10 else nid self))"
  by (simp add: send_find_node_def query_id_def Let_def)

text \<open>
  C4, as stated, fails: with \<open>token_length = 2\<close> the identifier sent to a node whose id is
  twenty \<open>a\<close> bytes shares ten bytes with that id, not two.
\<close>

theorem send_find_node_token_length_counterexample:
  "query_id (fst (send_find_node
       \<lparr>nid = replicate 20 CHR ''b'', ip = ''0.0.0.0'', port = 6882, token_length = 2, tid_length = 2\<rparr>
       (''1.2.3.4'', 6881) (Some (replicate 20 CHR ''a'')) ''tt'' (replicate 20 CHR ''c'')))
   \<noteq> Some (PBytes (take 2 (replicate 20 CHR ''a'') @ drop 2 (replicate 20 CHR ''b'')))"
  by (simp add: query_id_send_find_node get_neighbor_def eval_nat_numeral)

text \<open>
  C4 (amended): every \<^verbatim>\<open>find_node\<close> query of the node-queue drain carries as \<open>a.id\<close> the
  first ten bytes of the popped node's id followed by the own id from byte ten on,
  whatever \<open>token_length\<close> is; the queries of \<^verbatim>\<open>join_dht\<close> (bootstrap hosts and
  bootstrap-store addresses) carry the own id unchanged.
\<close>

theorem send_find_node_neighbor_id:
  "(k_nid node \<noteq> [] \<longrightarrow>
      map_option (query_id \<circ> fst) (fst (auto_send_find_node_step self (node # rest) tid target))
        = Some (Some (PBytes (take 10 (k_nid node) @ drop 10 (nid self)))))
   \<and> (\<forall>m \<in> set (join_dht self bootstrap_nodes bootstrap_extra draws).
         query_id (fst m) = Some (PBytes (nid self)))"
  by (auto simp: query_id_send_find_node get_neighbor_def join_dht_def)

theorem send_find_node_neighbor_id_witness:
  "query_id (fst (the (fst (auto_send_find_node_step
       \<lparr>nid = replicate 20 CHR ''b'', ip = ''0.0.0.0'', port = 6882, token_length = 2, tid_length = 2\<rparr>
       [\<lparr>k_nid = replicate 20 CHR ''a'', k_ip = ''1.2.3.4'', k_port = 6881\<rparr>] ''tt'' ''x''))))
     = Some (PBytes (replicate 10 CHR ''a'' @ replicate 10 CHR ''b''))
   \<and> list_all (\<lambda>m. query_id (fst m) = Some (PBytes (replicate 20 CHR ''b'')))
       (join_dht \<lparr>nid = replicate 20 CHR ''b'', ip = ''0.0.0.0'', port = 6882, token_length = 2, tid_length = 2\<rparr>
          [(''router.bittorrent.com'', 6881)] [(''5.6.7.8'', 6881)] (\<lambda>a. (''tt'', ''x'')))"
  using send_find_node_neighbor_id
    [of "\<lparr>k_nid = replicate 20 CHR ''a'', k_ip = ''1.2.3.4'', k_port = 6881\<rparr>"
        "\<lparr>nid = replicate 20 CHR ''b'', ip = ''0.0.0.0'', port = 6882, token_length = 2, tid_length = 2\<rparr>"
        "[]" "''tt''" "''x''" "[(''router.bittorrent.com'', 6881)]" "[(''5.6.7.8'', 6881)]"
        "\<lambda>a. (''tt'', ''x'')"]
  by (simp add: join_dht_def)

section \<open>Deduplication by the seen set\<close>





section \<open>Quarantine of failing peers\<close>

text \<open>
  C5, as stated, fails: the failures recorded at 1170, 1185 and 1190 lie within twenty
  seconds, yet the address is not marked bad, and an enqueue at 1191 is accepted. The
  failure at 1000 opened a window that ended at 1180, and the count started again at 1185.
\<close>

theorem sliding_window_counterexample:
  "bad failures_trace (''1.2.3.4'', 6881) = None
   \<and> fst (enqueue_once failures_trace 1191 (PBytes (replicate 20 CHR ''a'')) (Some (''1.2.3.4'', 6881)))"
  by (simp add: failures_trace_def record_failure_def master_init_def fail_window_def
      fail_threshold_def enqueue_once_def is_bad_def Let_def)

lemma record_failure_fresh:
  assumes "case fail_counts self a of None \<Rightarrow> True | Some (c, u) \<Rightarrow> u \<le> t1"
  shows "fail_counts (record_failure self t1 t1' a) a = Some (1, t1 + fail_window)"
    and "bad (record_failure self t1 t1' a) = bad self"
    and "seen (record_failure self t1 t1' a) = seen self"
  using assms
  by (auto simp: record_failure_def Let_def fail_window_def fail_threshold_def mark_bad_def
      split: option.splits prod.splits)

lemma record_failure_live:
  assumes "fail_counts self a = Some (c, u)" "now < u"
  shows "fail_counts (record_failure self now now2 a) a = Some (c + 1, u)"
    and "bad (record_failure self now now2 a) a =
           (if c + 1 \<ge> fail_threshold then Some (now2 + bad_ttl) else bad self a)"
    and "seen (record_failure self now now2 a) = seen self"
  using assms
  by (auto simp: record_failure_def Let_def mark_bad_def split: option.splits prod.splits)

lemma enqueue_once_blocked:
  assumes "bad self a = Some u" "u \<noteq> 0" "now < u"
  shows "enqueue_once self now ih (Some a) = (False, self)"
  using assms
  by (auto simp: enqueue_once_def is_bad_def split: pyval.splits)

lemma enqueue_once_expired:
  assumes "bad self a = Some u" "u \<noteq> 0" "u \<le> now" "length ih = 20"
  shows "bad (snd (enqueue_once self now (PBytes ih) (Some a))) a = None"
    and "fst (enqueue_once self now (PBytes ih) (Some a)) = (seen_key_of ih a |\<notin>| seen self)"
  using assms
  by (auto simp: enqueue_once_def is_bad_def Let_def split: pyval.splits)

text \<open>
  C5 (amended): when no failure window is open for an address (no entry, or one whose
  window has ended) and three failures are then recorded for it before 180 seconds have
  passed since the first of them, the address is marked bad until 300 seconds after the
  clock read of the third; every \<^verbatim>\<open>_enqueue_once\<close> for it before that instant returns false
  and changes nothing; a call with a 20-byte infohash at or after that instant deletes
  the entry and is accepted unless its key is in the seen set.
\<close>

theorem three_failures_quarantine:
  fixes self :: master and a :: address and t1 t1' t2 t2' t3 t3' :: real
  assumes fresh: "case fail_counts self a of None \<Rightarrow> True | Some (c, u) \<Rightarrow> u \<le> t1"
    and w2: "t2 < t1 + fail_window" and w3: "t3 < t1 + fail_window" and pos: "0 \<le> t3'"
  defines "s3 \<equiv> record_failure (record_failure (record_failure self t1 t1' a) t2 t2' a) t3 t3' a"
  shows "bad s3 a = Some (t3' + bad_ttl)
       \<and> (\<forall>now ih. now < t3' + bad_ttl \<longrightarrow> enqueue_once s3 now ih (Some a) = (False, s3))
       \<and> (\<forall>now ih. t3' + bad_ttl \<le> now \<and> length ih = 20 \<longrightarrow>
             bad (snd (enqueue_once s3 now (PBytes ih) (Some a))) a = None
           \<and> fst (enqueue_once s3 now (PBytes ih) (Some a)) = (seen_key_of ih a |\<notin>| seen self))"
proof -
  let ?s1 = "record_failure self t1 t1' a"
  let ?s2 = "record_failure ?s1 t2 t2' a"
  have f1: "fail_counts ?s1 a = Some (1, t1 + fail_window)"
    using record_failure_fresh(1)[OF fresh] .
  have f2: "fail_counts ?s2 a = Some (2, t1 + fail_window)"
    using record_failure_live(1)[OF f1 w2] by simp
  have b3: "bad s3 a = Some (t3' + bad_ttl)"
    unfolding s3_def using record_failure_live(2)[OF f2 w3] by (simp add: fail_threshold_def)
  have sn: "seen s3 = seen self"
    unfolding s3_def
    using record_failure_live(3)[OF f2 w3] record_failure_live(3)[OF f1 w2]
      record_failure_fresh(3)[OF fresh]
    by simp
  have nz: "t3' + bad_ttl \<noteq> 0" using pos by (simp add: bad_ttl_def)
  show ?thesis
    using b3 enqueue_once_blocked[OF b3 nz] enqueue_once_expired[OF b3 nz] sn by simp
qed

theorem three_failures_quarantine_witness:
  "bad (record_failure (record_failure (record_failure master_init 1000 1000 (''1.2.3.4'', 6881))
          1010 1010 (''1.2.3.4'', 6881)) 1020 1021 (''1.2.3.4'', 6881)) (''1.2.3.4'', 6881) = Some 1321
   \<and> \<not> fst (enqueue_once
         (record_failure (record_failure (record_failure master_init 1000 1000 (''1.2.3.4'', 6881))
            1010 1010 (''1.2.3.4'', 6881)) 1020 1021 (''1.2.3.4'', 6881))
         1320 (PBytes (replicate 20 CHR ''a'')) (Some (''1.2.3.4'', 6881)))
   \<and> fst (enqueue_once
         (record_failure (record_failure (record_failure master_init 1000 1000 (''1.2.3.4'', 6881))
            1010 1010 (''1.2.3.4'', 6881)) 1020 1021 (''1.2.3.4'', 6881))
         1321 (PBytes (replicate 20 CHR ''a'')) (Some (''1.2.3.4'', 6881)))"
  using three_failures_quarantine[where self = master_init and a = "(''1.2.3.4'', 6881)"
      and ?t1.0 = 1000 and t1' = 1000 and ?t2.0 = 1010 and t2' = 1010 and ?t3.0 = 1020 and t3' = 1021]
  by (simp add: master_init_def fail_window_def bad_ttl_def)

section \<open>Sampling from the reputation stores\<close>






section \<open>The framing scan terminates and advances\<close>

lemma bencode_next_index_ex1: "bencode_next_index ''d1:ai5ee'' 0 = Some 8"
  by (simp add: py_slice_def py_index_def py_find_def py_int_def py_strip_def is_digit_def
      is_space_def Let_def digit_val_def)

text \<open>
  C10: \<^verbatim>\<open>bencode_next_index(buf, i)\<close> terminates for every buffer and every integer index
  (each argument lies in the accessible part of the call relation of the scan and its
  loop), and a returned index \<open>j\<close> satisfies \<open>i < j \<le> len(buf)\<close>. The bound of the
  interpreter on the depth of recursion is not part of the model.
\<close>

theorem bencode_next_index_terminates_advances:
  "bencode_next_index_bencode_next_index_loop_dom (Inl (buf, i))
   \<and> (bencode_next_index buf i = Some j \<longrightarrow> i < j \<and> j \<le> int (length buf))"
  using bencode_next_index_dom_all(1)[of buf i] bencode_next_index_partial(1)[of buf i j] by blast

theorem bencode_next_index_terminates_advances_witness:
  "bencode_next_index ''d1:ai5ee'' 0 = Some 8 \<and> (0 :: int) < 8 \<and> (8 :: int) \<le> int (length ''d1:ai5ee'')"
  using bencode_next_index_terminates_advances[of "''d1:ai5ee''" 0 8] bencode_next_index_ex1
  by blast

section \<open>announce_peer: candidates and the reply\<close>

lemma ok_events:
  "list_all (\<lambda>e. \<not> is_log e) (fst (ok self msg address))"
  by (auto simp: ok_def bind_exn_def split: sum.splits exn.splits)

lemma ok_reply:
  assumes "py_getitem msg ''t'' = Inr tid" "py_getitem msg ''a'' = Inr (PDict kvs)"
    "map_of kvs ''id'' = Some (PBytes peer_id)"
  shows "ok self msg address =
     ([SendKrpc (PDict [(''t'', tid), (''y'', PStr ''r''),
          (''r'', PDict [(''id'', PBytes (take 10 peer_id @ drop 10 (nid self)))])]) address], None)"
  using assms by (simp add: ok_def bind_exn_def get_neighbor_def)

lemma announce_logged:
  "filter is_log (fst (on_announce_peer_request self msg address)) =
     (case announce_try self msg address of Inl e \<Rightarrow> [] | Inr evs \<Rightarrow> filter is_log evs)"
  "filter (\<lambda>e. \<not> is_log e) (fst (on_announce_peer_request self msg address)) =
     (case announce_try self msg address of Inl e \<Rightarrow> [] | Inr evs \<Rightarrow> filter (\<lambda>e. \<not> is_log e) evs)
       @ fst (ok self msg address)"
  "snd (on_announce_peer_request self msg address) = snd (ok self msg address)"
  using ok_events[of self msg address]
  by (auto simp: on_announce_peer_request_def Let_def list_all_iff filter_id_conv filter_empty_conv
      split: sum.splits prod.splits)

lemma announce_try_only_logs:
  "announce_try self msg address = Inr evs \<Longrightarrow> list_all is_log evs"
  by (auto simp: announce_try_def bind_exn_def Let_def list_all_iff split: sum.splits if_splits option.splits)

text \<open>
  C2, as stated, fails: a query with a matching token announces port 0 from UDP port 55555.
  The chosen port differs from the source port, and \<^verbatim>\<open>log_infohash\<close> is not called at all.
\<close>

theorem announce_port_counterexample:
  "py_take (PBytes (replicate 20 CHR ''h'')) (token_length spider) = Inr (PBytes ''hh'')
   \<and> filter is_log (fst (on_announce_peer_request spider
        (announce_msg (PBytes ''aa'') (PBytes (replicate 20 CHR ''p'')) (PBytes (replicate 20 CHR ''h''))
           (PBytes ''hh'') [(''port'', PInt 0)])
        (''1.2.3.4'', 55555))) = []"
  by (simp add: announce_logged announce_try_def bind_exn_def announce_msg_def spider_def
      eval_nat_numeral)

lemma announce_try_dict:
  assumes "py_getitem msg ''a'' = Inr (PDict kvs)"
    "map_of kvs ''info_hash'' = Some infohash" "map_of kvs ''token'' = Some token"
  shows "announce_try self msg address =
     bind_exn (py_take infohash (token_length self)) (\<lambda>prefix.
       if prefix \<noteq> token then Inr []
       else
         bind_exn
           (if ''implied_port'' \<in> fst ` set kvs \<and> map_of kvs ''implied_port'' \<noteq> Some (PInt 0)
            then Inr (Some (PInt (snd address)))
            else bind_exn (py_getitem (PDict kvs) ''port'') (\<lambda>p.
                 bind_exn (port_out_of_range p) (\<lambda>out. Inr (if out then None else Some p))))
           (\<lambda>chosen.
              case chosen of
                None \<Rightarrow> Inr []
              | Some p \<Rightarrow>
                  Inr (map (\<lambda>q. LogInfohash infohash (fst address, q))
                        ([p] @ (if PInt (snd address) \<noteq> p then [PInt (snd address)] else [])))))"
proof (cases "''implied_port'' \<in> fst ` set kvs")
  case True
  then obtain v where "map_of kvs ''implied_port'' = Some v"
    by (metis domD dom_map_of_conv_image_fst)
  with True assms show ?thesis
    by (cases "py_take infohash (token_length self)")
       (simp_all add: announce_try_def bind_exn_def Let_def)
next
  case False
  with assms show ?thesis
    by (cases "py_take infohash (token_length self)")
       (simp_all add: announce_try_def bind_exn_def Let_def)
qed

text \<open>
  C2 (amended): for an \<^verbatim>\<open>announce_peer\<close> query whose arguments hold \<^verbatim>\<open>info_hash\<close> and \<^verbatim>\<open>token\<close>:
  when the token equals \<^verbatim>\<open>infohash[:token_length]\<close> and \<^verbatim>\<open>implied_port\<close> is present and not 0,
  \<^verbatim>\<open>log_infohash\<close> is called once, with the UDP source port; when the token matches,
  \<^verbatim>\<open>implied_port\<close> is absent or 0 and \<^verbatim>\<open>a.port\<close> is an integer from 1 to 65535, it is called
  with \<^verbatim>\<open>a.port\<close> and then, if the source port differs, with the source port; when
  \<^verbatim>\<open>a.port\<close> is an integer outside 1 to 65535, or the token does not match, it is not called.
  In every case a query that has \<^verbatim>\<open>t\<close> and a byte-string \<^verbatim>\<open>a.id\<close> gets the reply
  \<^verbatim>\<open>{t, y: "r", r: {id: a.id[:10] + self.nid[10:]}}\<close>.
\<close>

theorem announce_peer_candidates:
  assumes a: "py_getitem msg ''a'' = Inr (PDict kvs)"
    and ih: "map_of kvs ''info_hash'' = Some infohash"
    and tok: "map_of kvs ''token'' = Some token"
  shows "(py_take infohash (token_length self) = Inr token
            \<and> ''implied_port'' \<in> fst ` set kvs \<and> map_of kvs ''implied_port'' \<noteq> Some (PInt 0) \<longrightarrow>
          filter is_log (fst (on_announce_peer_request self msg address))
            = [LogInfohash infohash (fst address, PInt (snd address))])
       \<and> (py_take infohash (token_length self) = Inr token
            \<and> \<not> (''implied_port'' \<in> fst ` set kvs \<and> map_of kvs ''implied_port'' \<noteq> Some (PInt 0))
            \<and> map_of kvs ''port'' = Some (PInt p) \<and> 1 \<le> p \<and> p \<le> 65535 \<longrightarrow>
          filter is_log (fst (on_announce_peer_request self msg address))
            = LogInfohash infohash (fst address, PInt p)
              # (if snd address \<noteq> p then [LogInfohash infohash (fst address, PInt (snd address))] else []))
       \<and> (py_take infohash (token_length self) = Inr token
            \<and> \<not> (''implied_port'' \<in> fst ` set kvs \<and> map_of kvs ''implied_port'' \<noteq> Some (PInt 0))
            \<and> map_of kvs ''port'' = Some (PInt p) \<and> (p < 1 \<or> 65535 < p) \<longrightarrow>
          filter is_log (fst (on_announce_peer_request self msg address)) = [])
       \<and> (py_take infohash (token_length self) \<noteq> Inr token \<longrightarrow>
          filter is_log (fst (on_announce_peer_request self msg address)) = [])
       \<and> (py_getitem msg ''t'' = Inr tid \<and> map_of kvs ''id'' = Some (PBytes peer_id) \<longrightarrow>
          filter (\<lambda>e. \<not> is_log e) (fst (on_announce_peer_request self msg address))
            = [SendKrpc (PDict [(''t'', tid), (''y'', PStr ''r''),
                 (''r'', PDict [(''id'', PBytes (take 10 peer_id @ drop 10 (nid self)))])]) address]
          \<and> snd (on_announce_peer_request self msg address) = None)"
proof (intro conjI impI)
  note t = announce_try_dict[OF a ih tok, of self address]
  {
    assume "py_take infohash (token_length self) = Inr token
            \<and> ''implied_port'' \<in> fst ` set kvs \<and> map_of kvs ''implied_port'' \<noteq> Some (PInt 0)"
    then show "filter is_log (fst (on_announce_peer_request self msg address))
            = [LogInfohash infohash (fst address, PInt (snd address))]"
      by (simp add: announce_logged(1) t bind_exn_def)
  }
  {
    assume "py_take infohash (token_length self) = Inr token
            \<and> \<not> (''implied_port'' \<in> fst ` set kvs \<and> map_of kvs ''implied_port'' \<noteq> Some (PInt 0))
            \<and> map_of kvs ''port'' = Some (PInt p) \<and> 1 \<le> p \<and> p \<le> 65535"
    then show "filter is_log (fst (on_announce_peer_request self msg address))
            = LogInfohash infohash (fst address, PInt p)
              # (if snd address \<noteq> p then [LogInfohash infohash (fst address, PInt (snd address))] else [])"
      by (auto simp: announce_logged(1) t bind_exn_def)
  }
  {
    assume "py_take infohash (token_length self) = Inr token
            \<and> \<not> (''implied_port'' \<in> fst ` set kvs \<and> map_of kvs ''implied_port'' \<noteq> Some (PInt 0))
            \<and> map_of kvs ''port'' = Some (PInt p) \<and> (p < 1 \<or> 65535 < p)"
    then show "filter is_log (fst (on_announce_peer_request self msg address)) = []"
      by (auto simp: announce_logged(1) t bind_exn_def)
  }
  {
    assume "py_take infohash (token_length self) \<noteq> Inr token"
    then show "filter is_log (fst (on_announce_peer_request self msg address)) = []"
      by (auto simp: announce_logged(1) t bind_exn_def split: sum.splits)
  }
  {
    assume r: "py_getitem msg ''t'' = Inr tid \<and> map_of kvs ''id'' = Some (PBytes peer_id)"
    have "filter (\<lambda>e. \<not> is_log e) evs = []" if "announce_try self msg address = Inr evs" for evs
      using announce_try_only_logs[OF that] by (simp add: list_all_iff filter_empty_conv)
    then have "(case announce_try self msg address of Inl e \<Rightarrow> []
                | Inr evs \<Rightarrow> filter (\<lambda>e. \<not> is_log e) evs) = []"
      by (cases "announce_try self msg address") auto
    with r ok_reply[of msg tid kvs peer_id self address] a
    show "filter (\<lambda>e. \<not> is_log e) (fst (on_announce_peer_request self msg address))
            = [SendKrpc (PDict [(''t'', tid), (''y'', PStr ''r''),
                 (''r'', PDict [(''id'', PBytes (take 10 peer_id @ drop 10 (nid self)))])]) address]"
      by (simp add: announce_logged(2))
    from r ok_reply[of msg tid kvs peer_id self address] a
    show "snd (on_announce_peer_request self msg address) = None"
      by (simp add: announce_logged(3))
  }
qed

theorem announce_peer_candidates_witness:
  "filter is_log (fst (on_announce_peer_request spider
        (announce_msg (PBytes ''aa'') (PBytes (replicate 20 CHR ''p'')) (PBytes (replicate 20 CHR ''h''))
           (PBytes ''hh'') [(''port'', PInt 6881)])
        (''1.2.3.4'', 55555)))
     = [LogInfohash (PBytes (replicate 20 CHR ''h'')) (''1.2.3.4'', PInt 6881),
        LogInfohash (PBytes (replicate 20 CHR ''h'')) (''1.2.3.4'', PInt 55555)]"
proof -
  let ?kvs = "[(''id'', PBytes (replicate 20 CHR ''p'')), (''info_hash'', PBytes (replicate 20 CHR ''h'')),
               (''token'', PBytes ''hh''), (''port'', PInt 6881)]"
  let ?msg = "announce_msg (PBytes ''aa'') (PBytes (replicate 20 CHR ''p''))
                (PBytes (replicate 20 CHR ''h'')) (PBytes ''hh'') [(''port'', PInt 6881)]"
  have a: "py_getitem ?msg ''a'' = Inr (PDict ?kvs)"
    by (simp add: announce_msg_def)
  have ih: "map_of ?kvs ''info_hash'' = Some (PBytes (replicate 20 CHR ''h''))"
    by simp
  have tok: "map_of ?kvs ''token'' = Some (PBytes ''hh'')"
    by simp
  have m: "py_take (PBytes (replicate 20 CHR ''h'')) (token_length spider) = Inr (PBytes ''hh'')"
    by (simp add: spider_def eval_nat_numeral)
  have ni: "\<not> (''implied_port'' \<in> fst ` set ?kvs \<and> map_of ?kvs ''implied_port'' \<noteq> Some (PInt 0))"
    by simp
  have p: "map_of ?kvs ''port'' = Some (PInt 6881)"
    by simp
  from announce_peer_candidates[OF a ih tok, where self = spider and p = 6881
      and address = "(''1.2.3.4'', 55555)", THEN conjunct2, THEN conjunct1] m ni p
  show ?thesis by simp
qed

section \<open>The extension handshake of the metadata fetcher\<close>

lemma fetch_parts_received:
  assumes "ext_handshake_received io infohash lp body"
  shows "fetch_parts lib io infohash =
     (case parse_ext_handshake lib (lp @ body) of
        None \<Rightarrow> Inl ''ext_fail''
      | Some (ut_metadata, metadata_size) \<Rightarrow>
          (case metadata_pieces metadata_size of
             Inl e \<Rightarrow> Inl (status_of_exn e)
           | Inr pieces \<Rightarrow>
               if pieces \<le> 0 \<or> pieces > 4096 then Inl ''bad_pieces''
               else
                 (case piece_loop lib io ut_metadata [0..<nat pieces] [] of
                    Inl e \<Rightarrow> Inl (status_of_exn e)
                  | Inr parts \<Rightarrow> Inr parts)))"
  using assms
  by (auto simp: ext_handshake_received_def fetch_parts_def Let_def split: sum.splits option.splits)

lemma parse_ext_handshake_framed:
  assumes "length lp = 4" "length body = be32 lp" "body = char_of (20 :: nat) # char_of (0 :: nat) # payload"
    "payload \<noteq> []"
  shows "parse_ext_handshake lib (lp @ body) =
     (case bdecode lib payload of
        Some (BDict d) \<Rightarrow>
          (case (case map_of d ''m'' of Some (BDict m) \<Rightarrow> map_of m ''ut_metadata'' | _ \<Rightarrow> None,
                 map_of d ''metadata_size'') of
             (Some (BInt ut), Some (BInt msize)) \<Rightarrow> if msize > 0 then Some (ut, msize) else None
           | _ \<Rightarrow> None)
      | _ \<Rightarrow> None)"
proof -
  from assms have len: "be32 lp = length payload + 2" "be32 lp > 2"
    by (cases payload; simp)+
  have t4: "take 4 (lp @ body) = lp" using assms(1) by simp
  have d6: "drop 6 (lp @ body) = payload" using assms(1,3) by simp
  have n4: "(lp @ body) ! 4 = char_of (20 :: nat)" "(lp @ body) ! 5 = char_of (0 :: nat)"
    using assms(1,3) by (simp_all add: nth_append)
  show ?thesis
    unfolding parse_ext_handshake_def t4 d6 n4 Let_def
    using assms(1,2) len
    by (auto split: option.splits bvalue.splits)
qed

lemma check_handshake_example:
  assumes "length infohash = 20"
  shows "check_handshake (take 68 (char_of (19 :: nat) # BT_PROTOCOL @ replicate 8 (char_of (0 :: nat))
            @ infohash @ replicate 20 CHR ''p'')) infohash"
proof -
  have l: "length BT_PROTOCOL = 19" by (simp add: BT_PROTOCOL_def)
  let ?pk = "char_of (19 :: nat) # BT_PROTOCOL @ replicate 8 (char_of (0 :: nat)) @ infohash @ replicate 20 CHR ''p''"
  have len: "length ?pk = 68" using assms l by simp
  have t: "take 68 ?pk = ?pk" using len by simp
  have p1: "take 19 (drop 1 ?pk) = BT_PROTOCOL" using l by simp
  have p2: "take 20 (drop 28 ?pk) = infohash" using l assms by simp
  have h: "(of_char (?pk ! 0) :: nat) = 19" by simp
  show ?thesis
    unfolding t check_handshake_def Let_def h using len l p1 p2 by simp
qed

lemma example_peer_received:
  assumes "length infohash = 20" "length payload < 254"
  shows "ext_handshake_received (example_peer infohash payload blobs) infohash
           [char_of (0 :: nat), char_of (0 :: nat), char_of (0 :: nat), char_of (2 + length payload)]
           (char_of (20 :: nat) # char_of (0 :: nat) # payload)"
proof -
  let ?io = "example_peer infohash payload blobs"
  let ?lp = "[char_of (0 :: nat), char_of (0 :: nat), char_of (0 :: nat), char_of (2 + length payload)]"
  let ?body = "char_of (20 :: nat) # char_of (0 :: nat) # payload"
  have b: "be32 ?lp = 2 + length payload"
    using assms(2) by (simp add: be32_def)
  have rh: "recv_handshake ?io = Inr (char_of (19 :: nat) # BT_PROTOCOL @ replicate 8 (char_of (0 :: nat))
            @ infohash @ replicate 20 CHR ''p'')"
    by (simp add: example_peer_def)
  show ?thesis
    unfolding ext_handshake_received_def
  proof (intro conjI)
    show "connect_exn ?io = None" by (simp add: example_peer_def)
    show "case recv_handshake ?io of Inl e \<Rightarrow> False | Inr hs \<Rightarrow> check_handshake (take 68 hs) infohash"
      unfolding rh sum.case by (rule check_handshake_example[OF assms(1)])
    show "recv_len ?io = Inr ?lp" by (simp add: example_peer_def)
    show "length ?lp = 4" by simp
    show "0 < be32 ?lp" unfolding b by simp
    show "be32 ?lp \<le> 2000000" unfolding b using assms(2) by simp
    show "recv_body ?io = Inr ?body" by (simp add: example_peer_def)
    show "length ?body = be32 ?lp" unfolding b by simp
  qed
qed

lemma parse_ext_handshake_pos:
  "parse_ext_handshake lib packet = Some (ut, msize) \<Longrightarrow> 0 < msize"
  by (auto simp: parse_ext_handshake_def Let_def split: if_splits option.splits bvalue.splits)

lemma finish_status: "fst (finish lib io address infohash parts) \<noteq> ''ext_fail''
    \<and> fst (finish lib io address infohash parts) \<noteq> ''bad_pieces''"
proof -
  have "status_of_exn e \<noteq> ''ext_fail'' \<and> status_of_exn e \<noteq> ''bad_pieces''" for e
    by (cases e) simp_all
  then show ?thesis
    by (auto simp: finish_def Let_def split: option.splits)
qed

lemma status_of_exn_neq: "status_of_exn e \<noteq> ''ext_fail'' \<and> status_of_exn e \<noteq> ''bad_pieces''"
  by (cases e) simp_all

text \<open>
  C6, as stated, fails: a peer whose extension handshake advertises \<open>metadata_size = 0\<close>
  gets the status \<^verbatim>\<open>ext_fail\<close>, not \<^verbatim>\<open>bad_pieces\<close>.
\<close>

theorem metadata_size_zero_counterexample:
  "download_metadata
     (example_lib [(''d1:md11:ut_metadatai1ee13:metadata_sizei0ee'', ext_payload 1 0)] (replicate 20 CHR ''h''))
     (example_peer (replicate 20 CHR ''h'') ''d1:md11:ut_metadatai1ee13:metadata_sizei0ee'' (\<lambda>i. []))
     (''1.2.3.4'', 6881) (replicate 20 CHR ''h'')
   = (''ext_fail'', [])"
proof -
  let ?P = "''d1:md11:ut_metadatai1ee13:metadata_sizei0ee''"
  let ?lp = "[char_of (0 :: nat), char_of (0 :: nat), char_of (0 :: nat), char_of (2 + length ?P)]"
  have r: "ext_handshake_received (example_peer (replicate 20 CHR ''h'') ?P (\<lambda>i. [])) (replicate 20 CHR ''h'')
             ?lp (char_of (20 :: nat) # char_of (0 :: nat) # ?P)"
    by (rule example_peer_received) simp_all
  have p: "parse_ext_handshake
             (example_lib [(?P, ext_payload 1 0)] (replicate 20 CHR ''h''))
             (?lp @ char_of (20 :: nat) # char_of (0 :: nat) # ?P) = None"
    by (subst parse_ext_handshake_framed[where payload = ?P])
       (simp_all add: be32_def example_lib_def ext_payload_def)
  show ?thesis
    unfolding download_metadata_def fetch_parts_received[OF r] p by simp
qed

text \<open>
  C6 (amended): when the extension handshake advertises a \<open>metadata_size\<close> of 0 (or a
  negative one), \<^verbatim>\<open>download_metadata\<close> returns \<^verbatim>\<open>ext_fail\<close> and stores nothing:
  \<^verbatim>\<open>parse_ext_handshake\<close> accepts positive sizes only. The status \<^verbatim>\<open>bad_pieces\<close> comes only from
  a size above \<open>4096 * 16384\<close>; the branch \<open>pieces \<le> 0\<close> of the piece-count check is never
  taken.
\<close>

theorem metadata_size_not_positive:
  assumes rec: "ext_handshake_received io infohash lp body"
  shows "(body = char_of (20 :: nat) # char_of (0 :: nat) # payload \<and> payload \<noteq> []
            \<and> bdecode lib payload = Some (BDict d)
            \<and> map_of d ''metadata_size'' = Some (BInt msize) \<and> msize \<le> 0 \<longrightarrow>
          download_metadata lib io address infohash = (''ext_fail'', []))
       \<and> (fst (download_metadata lib io address infohash) = ''bad_pieces'' \<longrightarrow>
          (\<exists>ut sz. parse_ext_handshake lib (lp @ body) = Some (ut, sz) \<and> 4096 * 16384 < sz))"
proof (intro conjI impI)
  assume h: "body = char_of (20 :: nat) # char_of (0 :: nat) # payload \<and> payload \<noteq> []
            \<and> bdecode lib payload = Some (BDict d)
            \<and> map_of d ''metadata_size'' = Some (BInt msize) \<and> msize \<le> 0"
  from rec have l: "length lp = 4" "length body = be32 lp"
    by (simp_all add: ext_handshake_received_def)
  from h have "parse_ext_handshake lib (lp @ body) = None"
    by (subst parse_ext_handshake_framed[OF l, of payload])
       (auto split: option.splits bvalue.splits)
  then show "download_metadata lib io address infohash = (''ext_fail'', [])"
    unfolding download_metadata_def fetch_parts_received[OF rec] by simp
next
  assume bp: "fst (download_metadata lib io address infohash) = ''bad_pieces''"
  show "\<exists>ut sz. parse_ext_handshake lib (lp @ body) = Some (ut, sz) \<and> 4096 * 16384 < sz"
  proof (cases "parse_ext_handshake lib (lp @ body)")
    case None
    with bp show ?thesis
      unfolding download_metadata_def fetch_parts_received[OF rec] by simp
  next
    case (Some p)
    obtain ut sz where p: "p = (ut, sz)" by (cases p) auto
    from parse_ext_handshake_pos[of lib "lp @ body" ut sz] Some p have pos: "0 < sz" by simp
    have "4096 * 16384 < sz"
    proof (rule ccontr)
      assume "\<not> 4096 * 16384 < sz"
      with pos have pc: "metadata_pieces sz = Inr ((sz + 16383) div 16384)"
        "0 < (sz + 16383) div 16384" "(sz + 16383) div 16384 \<le> 4096"
        by (simp_all add: metadata_pieces_def)
      from bp show False
        unfolding download_metadata_def fetch_parts_received[OF rec] Some p
        using pc finish_status[of lib io address infohash] status_of_exn_neq
        by (auto split: sum.splits)
    qed
    with Some p show ?thesis by simp
  qed
qed

theorem metadata_size_not_positive_witness:
  "download_metadata
     (example_lib [(''d1:md11:ut_metadatai1ee13:metadata_sizei-5ee'', ext_payload 1 (- 5))] (replicate 20 CHR ''h''))
     (example_peer (replicate 20 CHR ''h'') ''d1:md11:ut_metadatai1ee13:metadata_sizei-5ee'' (\<lambda>i. []))
     (''1.2.3.4'', 6881) (replicate 20 CHR ''h'')
   = (''ext_fail'', [])"
proof -
  let ?P = "''d1:md11:ut_metadatai1ee13:metadata_sizei-5ee''"
  let ?lib = "example_lib [(?P, ext_payload 1 (- 5))] (replicate 20 CHR ''h'')"
  have r: "ext_handshake_received (example_peer (replicate 20 CHR ''h'') ?P (\<lambda>i. [])) (replicate 20 CHR ''h'')
             [char_of (0 :: nat), char_of (0 :: nat), char_of (0 :: nat), char_of (2 + length ?P)]
             (char_of (20 :: nat) # char_of (0 :: nat) # ?P)"
    by (rule example_peer_received) simp_all
  have d: "bdecode ?lib ?P
             = Some (BDict [(''m'', BDict [(''ut_metadata'', BInt 1)]), (''metadata_size'', BInt (- 5))])"
    by (simp add: example_lib_def ext_payload_def)
  have m: "map_of [(''m'', BDict [(''ut_metadata'', BInt 1)]), (''metadata_size'', BInt (- 5))]
             ''metadata_size'' = Some (BInt (- 5))"
    by simp
  from metadata_size_not_positive[OF r, where payload = ?P and lib = ?lib and msize = "- 5",
      THEN conjunct1, rule_format] d m
  show ?thesis by simp
qed




section \<open>Hexadecimal text determines the bytes\<close>

lemma upper_hex_digits: "map (\<lambda>n. upper_char (hex_digit n)) [0..<16] = ''0123456789ABCDEF''"
  by code_simp

lemma upper_hex_digit_inj:
  assumes "n < 16" "m < 16" "upper_char (hex_digit n) = upper_char (hex_digit m)"
  shows "n = m"
proof -
  have "distinct (map (\<lambda>n. upper_char (hex_digit n)) [0..<16])"
    unfolding upper_hex_digits by simp
  then have "inj_on (\<lambda>n. upper_char (hex_digit n)) (set [0..<16])"
    by (simp only: distinct_map)
  with assms show ?thesis by (auto dest: inj_onD)
qed

lemma upper_py_hex_Cons:
  "upper (py_hex (c # cs)) =
     upper_char (hex_digit (of_char c div 16)) # upper_char (hex_digit (of_char c mod 16)) # upper (py_hex cs)"
  by (simp add: upper_def py_hex_def)

lemma upper_py_hex_inj: "upper (py_hex a) = upper (py_hex b) \<Longrightarrow> a = b"
proof (induction a arbitrary: b)
  case Nil
  then show ?case by (cases b) (simp_all add: upper_def py_hex_def)
next
  case (Cons c cs)
  then obtain d ds where b: "b = d # ds" by (cases b) (auto simp: upper_def py_hex_def)
  from Cons.prems b have h: "upper_char (hex_digit (of_char c div 16)) = upper_char (hex_digit (of_char d div 16))"
    "upper_char (hex_digit (of_char c mod 16)) = upper_char (hex_digit (of_char d mod 16))"
    "upper (py_hex cs) = upper (py_hex ds)"
    by (simp_all add: upper_py_hex_Cons)
  have lt: "(of_char c :: nat) < 256" "(of_char d :: nat) < 256" by simp_all
  then have "(of_char c :: nat) div 16 < 16" "(of_char d :: nat) div 16 < 16"
    by (simp_all add: div_less_iff_less_mult)
  from upper_hex_digit_inj[OF this h(1)] upper_hex_digit_inj[OF _ _ h(2)]
  have "(of_char c :: nat) div 16 = of_char d div 16" "(of_char c :: nat) mod 16 = of_char d mod 16"
    by simp_all
  then have "(of_char c :: nat) = of_char d" by (metis div_mult_mod_eq)
  then have "c = d" by simp
  with Cons.IH[OF h(3)] b show ?case by simp
qed

section \<open>The verified metadata and the stored torrent\<close>

text \<open>
  C1: when \<^verbatim>\<open>download_metadata\<close> returns \<^verbatim>\<open>ok\<close>, the piece loop captured payloads whose
  concatenation, in piece order, has a SHA-1 digest equal to the infohash (as upper-case
  hexadecimal text, hence as bytes), and \<^verbatim>\<open>storage_info_fn\<close> was called exactly once, with
  the torrent bytes \<^verbatim>\<open>d4:info\<close>, the concatenation, \<^verbatim>\<open>e\<close>. When payloads were captured and
  the comparison fails, the status is \<^verbatim>\<open>sha1_mismatch\<close> and \<^verbatim>\<open>storage_info_fn\<close> is not called.
\<close>

theorem download_ok_sha1_verified:
  "(download_metadata lib io address infohash = (''ok'', calls) \<longrightarrow>
      (\<exists>parts meta_data. fetch_parts lib io infohash = Inr parts
         \<and> upper (py_hex (sha1 lib (concat parts))) = upper (py_hex infohash)
         \<and> sha1 lib (concat parts) = infohash
         \<and> bdecode lib (concat parts) = Some meta_data
         \<and> calls = [(mk_info lib meta_data infohash address, ''d4:info'' @ concat parts @ ''e'', address)]))
   \<and> (fetch_parts lib io infohash = Inr parts' \<and> parts' \<noteq> []
        \<and> upper (py_hex (sha1 lib (concat parts'))) \<noteq> upper (py_hex infohash) \<longrightarrow>
      download_metadata lib io address infohash = (''sha1_mismatch'', []))"
proof (intro conjI impI)
  assume ok: "download_metadata lib io address infohash = (''ok'', calls)"
  have ne: "status_of_exn e \<noteq> ''ok''" for e by (cases e) simp_all
  from ok obtain parts where fp: "fetch_parts lib io infohash = Inr parts"
    and fin: "finish lib io address infohash parts = (''ok'', calls)"
  proof (cases "fetch_parts lib io infohash")
    case (Inl st)
    have "st \<noteq> ''ok''"
      using Inl ne
      by (auto simp: fetch_parts_def Let_def split: option.splits sum.splits if_splits prod.splits)
    with ok Inl show ?thesis by (simp add: download_metadata_def)
  next
    case (Inr parts)
    with ok that show ?thesis by (simp add: download_metadata_def)
  qed
  from fin ne show "\<exists>parts meta_data. fetch_parts lib io infohash = Inr parts
         \<and> upper (py_hex (sha1 lib (concat parts))) = upper (py_hex infohash)
         \<and> sha1 lib (concat parts) = infohash
         \<and> bdecode lib (concat parts) = Some meta_data
         \<and> calls = [(mk_info lib meta_data infohash address, ''d4:info'' @ concat parts @ ''e'', address)]"
    using fp by (auto simp: finish_def Let_def dest: upper_py_hex_inj split: if_splits option.splits)
next
  assume "fetch_parts lib io infohash = Inr parts' \<and> parts' \<noteq> []
        \<and> upper (py_hex (sha1 lib (concat parts'))) \<noteq> upper (py_hex infohash)"
  then show "download_metadata lib io address infohash = (''sha1_mismatch'', [])"
    by (simp add: download_metadata_def finish_def)
qed

theorem download_ok_sha1_verified_witness:
  "download_metadata
     (example_lib [(''d1:md11:ut_metadatai1ee13:metadata_sizei12ee'', ext_payload 1 12),
                   (''d4:name1:xe'', BDict [(''name'', BBytes ''x'')])] (replicate 20 CHR ''h''))
     (example_peer (replicate 20 CHR ''h'') ''d1:md11:ut_metadatai1ee13:metadata_sizei12ee''
        (\<lambda>i. ''d8:msg_typei1e5:piecei0e10:total_sizei12ee'' @ ''d4:name1:xe''))
     (''1.2.3.4'', 6881) (replicate 20 CHR ''h'')
   = (''ok'', [((), ''d4:infod4:name1:xee'', (''1.2.3.4'', 6881))])
   \<and> download_metadata
     (example_lib [(''d1:md11:ut_metadatai1ee13:metadata_sizei12ee'', ext_payload 1 12),
                   (''d4:name1:xe'', BDict [(''name'', BBytes ''x'')])] (replicate 20 CHR ''z''))
     (example_peer (replicate 20 CHR ''h'') ''d1:md11:ut_metadatai1ee13:metadata_sizei12ee''
        (\<lambda>i. ''d8:msg_typei1e5:piecei0e10:total_sizei12ee'' @ ''d4:name1:xe''))
     (''1.2.3.4'', 6881) (replicate 20 CHR ''h'')
   = (''sha1_mismatch'', [])"
proof -
  let ?P = "''d1:md11:ut_metadatai1ee13:metadata_sizei12ee''"
  let ?M = "''d4:name1:xe''"
  let ?tab = "[(?P, ext_payload 1 12), (?M, BDict [(''name'', BBytes ''x'')])]"
  let ?lp = "[char_of (0 :: nat), char_of (0 :: nat), char_of (0 :: nat), char_of (2 + length ?P)]"
  let ?io = "example_peer (replicate 20 CHR ''h'') ?P (\<lambda>i. ''d8:msg_typei1e5:piecei0e10:total_sizei12ee'' @ ?M)"
  have r: "ext_handshake_received ?io (replicate 20 CHR ''h'')
             ?lp (char_of (20 :: nat) # char_of (0 :: nat) # ?P)"
    by (rule example_peer_received) simp_all
  have p: "parse_ext_handshake (example_lib ?tab dg) (?lp @ char_of (20 :: nat) # char_of (0 :: nat) # ?P)
             = Some (1, 12)" for dg
    by (subst parse_ext_handshake_framed[where payload = ?P])
       (simp_all add: be32_def example_lib_def ext_payload_def)
  have pc: "metadata_pieces 12 = Inr 1"
    by (simp add: metadata_pieces_def)
  have fp: "fetch_parts (example_lib ?tab dg) ?io (replicate 20 CHR ''h'') = Inr [?M]" for dg
    unfolding fetch_parts_received[OF r] p
    by (simp add: pc example_peer_def extract_piece_def)
  have okrun: "download_metadata (example_lib ?tab (replicate 20 CHR ''h'')) ?io (''1.2.3.4'', 6881)
                 (replicate 20 CHR ''h'') = (''ok'', [((), ''d4:infod4:name1:xee'', (''1.2.3.4'', 6881))])"
    unfolding download_metadata_def fp
    by (simp add: finish_def example_lib_def example_peer_def)
  have ne: "upper (py_hex (sha1 (example_lib ?tab (replicate 20 CHR ''z'')) (concat [?M])))
              \<noteq> upper (py_hex (replicate 20 CHR ''h''))"
    using upper_py_hex_inj[of "replicate 20 CHR ''z''" "replicate 20 CHR ''h''"]
    by (auto simp: example_lib_def)
  from download_ok_sha1_verified[where lib = "example_lib ?tab (replicate 20 CHR ''z'')" and io = ?io
      and infohash = "replicate 20 CHR ''h''" and parts' = "[?M]" and address = "(''1.2.3.4'', 6881)",
      THEN conjunct2, rule_format] fp ne
  have "download_metadata (example_lib ?tab (replicate 20 CHR ''z'')) ?io (''1.2.3.4'', 6881)
          (replicate 20 CHR ''h'') = (''sha1_mismatch'', [])"
    by simp
  with okrun show ?thesis by simp
qed

section \<open>Decimal text of integers\<close>

lemma dec_nat_digits: "list_all is_digit (dec_nat n)"
proof (induction n rule: dec_nat.induct)
  case (1 n)
  have d: "is_digit (char_of (48 + k))" if "k < 10" for k :: nat
    using that by (simp add: is_digit_def)
  show ?case
  proof (cases "n < 10")
    case True
    then show ?thesis by (subst dec_nat.simps) (simp add: d)
  next
    case False
    with 1 d[of "n mod 10"] show ?thesis by (subst dec_nat.simps) simp
  qed
qed

lemma dec_nat_nonempty: "dec_nat n \<noteq> []"
  by (subst dec_nat.simps) simp

lemma digits_acc_digits:
  "list_all is_digit xs \<Longrightarrow> digits_acc acc (xs @ ys) = digits_acc (foldl (\<lambda>a c. 10 * a + digit_val c) acc xs) ys"
  by (induction xs arbitrary: acc) simp_all

lemma digits_value_digits:
  assumes "list_all is_digit xs" "xs \<noteq> []"
  shows "digits_value xs = Some (foldl (\<lambda>a c. 10 * a + digit_val c) 0 xs)"
proof -
  obtain c cs where xs: "xs = c # cs" using assms(2) by (cases xs) auto
  with assms(1) have "digits_acc (digit_val c) (cs @ []) = digits_acc (foldl (\<lambda>a c. 10 * a + digit_val c) (digit_val c) cs) []"
    by (intro digits_acc_digits) simp
  with xs assms(1) show ?thesis by simp
qed

lemma foldl_dec_nat: "foldl (\<lambda>a c. 10 * a + digit_val c) 0 (dec_nat n) = n"
proof (induction n rule: dec_nat.induct)
  case (1 n)
  have dv: "digit_val (char_of (48 + k)) = k" if "k < 10" for k :: nat
    using that by (simp add: digit_val_def)
  show ?case
  proof (cases "n < 10")
    case True
    then show ?thesis by (subst dec_nat.simps) (simp add: dv)
  next
    case False
    with 1 dv[of "n mod 10"] show ?thesis by (subst dec_nat.simps) simp
  qed
qed

lemma digits_value_dec_nat: "digits_value (dec_nat n) = Some n"
  using digits_value_digits[OF dec_nat_digits dec_nat_nonempty, of n] by (simp add: foldl_dec_nat)

lemma py_strip_no_space:
  assumes "list_all (\<lambda>c. \<not> is_space c) s"
  shows "py_strip s = s"
proof -
  have "dropWhile is_space s = s" using assms by (cases s) simp_all
  moreover have "dropWhile is_space (rev s) = rev s"
    using assms by (cases "rev s") (auto simp: list_all_iff dest: arg_cong[where f = set])
  ultimately show ?thesis by (simp add: py_strip_def)
qed

lemma dec_nat_no_space: "list_all (\<lambda>c. \<not> is_space c) (dec_nat n)"
  using dec_nat_digits[of n] is_digit_not_space by (auto simp: list_all_iff)

lemma py_int_dec_nat: "py_int (dec_nat n) = Some (int n)"
proof -
  obtain c cs where d: "dec_nat n = c # cs" using dec_nat_nonempty[of n] by (cases "dec_nat n") auto
  with dec_nat_digits[of n] have "is_digit c" by simp
  from is_digit_not_sign[OF this] d digits_value_dec_nat[of n] py_strip_no_space[OF dec_nat_no_space, of n]
  show ?thesis by (simp add: py_int_def)
qed

lemma py_int_minus_dec_nat: "py_int (CHR ''-'' # dec_nat n) = Some (- int n)"
proof -
  have "list_all (\<lambda>c. \<not> is_space c) (CHR ''-'' # dec_nat n)"
    using dec_nat_no_space[of n] by (simp add: is_space_def)
  from py_strip_no_space[OF this] digits_value_dec_nat[of n] show ?thesis
    by (simp add: py_int_def)
qed

lemma py_str_int_Some:
  assumes "py_str_int x = Some s"
  shows "py_int_limited s = Some x"
    and "s \<noteq> []"
    and "CHR ''e'' \<notin> set s" and "CHR '':'' \<notin> set s"
    and "0 \<le> x \<Longrightarrow> list_all is_digit s"
proof -
  let ?d = "dec_nat (nat \<bar>x\<bar>)"
  from assms have len: "length ?d \<le> max_str_digits" and s: "s = (if x < 0 then CHR ''-'' # ?d else ?d)"
    by (auto simp: py_str_int_def Let_def split: if_splits)
  have fd: "filter is_digit ?d = ?d" using dec_nat_digits[of "nat \<bar>x\<bar>"] by (simp add: list_all_iff)
  have nd: "\<not> is_digit CHR ''-''" by (simp add: is_digit_def)
  show "py_int_limited s = Some x"
    using len s fd nd py_int_dec_nat[of "nat \<bar>x\<bar>"] py_int_minus_dec_nat[of "nat \<bar>x\<bar>"]
    by (auto simp: py_int_limited_def)
  show "s \<noteq> []" using s dec_nat_nonempty by auto
  have "\<not> is_digit CHR ''e''" "\<not> is_digit CHR '':''" by (simp_all add: is_digit_def)
  with dec_nat_digits[of "nat \<bar>x\<bar>"] have "CHR ''e'' \<notin> set ?d" "CHR '':'' \<notin> set ?d"
    by (auto simp: list_all_iff)
  with s show "CHR ''e'' \<notin> set s" "CHR '':'' \<notin> set s" by auto
  show "list_all is_digit s" if "0 \<le> x" using that s dec_nat_digits by auto
qed

section \<open>The bencode round trip of magnet.py\<close>

lemma find_char_first: "c \<notin> set xs \<Longrightarrow> find_char c (xs @ c # ys) = Some (length xs)"
  by (induction xs) auto

lemma py_index_of_first:
  "c \<notin> set s \<Longrightarrow> py_index_of c (pre @ s @ c # rest) (length pre) = Some (length pre + length s)"
  by (simp add: py_index_of_def find_char_first)

lemma bdecode_int_case:
  assumes "py_str_int x = Some s"
  shows "bdecode_m (pre @ (''i'' @ s @ ''e'') @ rest) (length pre)
           = Some (MInt x, length pre + length (''i'' @ s @ ''e''))"
proof -
  note ss = py_str_int_Some[OF assms]
  have "CHR ''e'' \<notin> set (CHR ''i'' # s)" using ss(3) by simp
  from py_index_of_first[OF this, of pre rest]
  have ix: "py_index_of CHR ''e'' (pre @ CHR ''i'' # s @ CHR ''e'' # rest) (length pre)
              = Some (length pre + Suc (length s))" by simp
  show ?thesis
    by (subst bdecode_m.simps) (simp add: ix ss(1) Let_def)
qed

lemma digit_first:
  assumes "list_all is_digit s" "s \<noteq> []"
  shows "take 1 (s @ t) = [hd s]" "is_digit (hd s)"
    "hd s \<noteq> CHR ''i''" "hd s \<noteq> CHR ''l''" "hd s \<noteq> CHR ''d''" "hd s \<noteq> CHR ''e''"
proof -
  obtain c cs where s: "s = c # cs" using assms(2) by (cases s) auto
  with assms(1) have d: "is_digit c" by simp
  show "take 1 (s @ t) = [hd s]" "is_digit (hd s)" using s d by simp_all
  show "hd s \<noteq> CHR ''i''" "hd s \<noteq> CHR ''l''" "hd s \<noteq> CHR ''d''" "hd s \<noteq> CHR ''e''"
    using s d by (auto simp: is_digit_def)
qed

lemma bdecode_bytes_case:
  assumes "bencode_bytes b = Some enc"
  shows "bdecode_m (pre @ enc @ rest) (length pre) = Some (MBytes b, length pre + length enc)"
proof -
  from assms obtain s where s: "py_str_int (int (length b)) = Some s" and enc: "enc = s @ '':'' @ b"
    by (auto simp: bencode_bytes_def)
  note ss = py_str_int_Some[OF s]
  have dg: "list_all is_digit s" using ss(5) by simp
  obtain d ds where sd: "s = d # ds" using ss(2) by (cases s) auto
  with dg have d: "is_digit d" by simp
  then have dne: "d \<noteq> CHR ''i''" "d \<noteq> CHR ''l''" "d \<noteq> CHR ''d''"
    by (auto simp: is_digit_def)
  from py_index_of_first[OF ss(4), of pre "b @ rest"]
  have ix: "py_index_of CHR '':'' (pre @ d # ds @ CHR '':'' # b @ rest) (length pre)
              = Some (length pre + Suc (length ds))" by (simp add: sd)
  have pi: "py_int_limited (d # ds) = Some (int (length b))" using ss(1) sd by simp
  show ?thesis
    unfolding enc sd
    by (subst bdecode_m.simps) (simp add: ix d dne pi Let_def)
qed

lemma bencode_first:
  assumes "bencode_m v = Some enc"
  shows "enc \<noteq> [] \<and> hd enc \<noteq> CHR ''e''"
proof (cases v)
  case (MBytes b)
  with assms obtain s where s: "py_str_int (int (length b)) = Some s" and enc: "enc = s @ '':'' @ b"
    by (auto simp: bencode_bytes_def)
  note ss = py_str_int_Some[OF s]
  have dg: "list_all is_digit s" using ss(5) by simp
  from digit_first(6)[OF dg ss(2)] ss(2) enc show ?thesis by simp
qed (use assms in auto)

lemma take1_not_e:
  assumes "enc \<noteq> [] \<and> hd enc \<noteq> CHR ''e''"
  shows "take 1 (drop (length pre) (pre @ enc @ rest)) \<noteq> ''e''"
  using assms by (cases enc) auto

lemma join_options_Cons:
  "join_options (x # xs) = Some j \<longleftrightarrow> (\<exists>e j'. x = Some e \<and> join_options xs = Some j' \<and> j = e @ j')"
  by (cases x) auto

lemma bdecode_list_roundtrip:
  assumes "\<And>x pre rest enc. x \<in> set xs \<Longrightarrow> bencode_m x = Some enc \<Longrightarrow>
             bdecode_m (pre @ enc @ rest) (length pre) = Some (in_key_order x, length pre + length enc)"
    and "join_options (map bencode_m xs) = Some j"
  shows "bdecode_list (pre @ j @ ''e'' @ rest) (length pre) out
           = Some (out @ map in_key_order xs, length pre + length j)"
  using assms
proof (induction xs arbitrary: pre out j)
  case Nil
  then show ?case by (subst bdecode_list.simps) simp
next
  case (Cons x xs)
  from Cons.prems(2) obtain e j' where e: "bencode_m x = Some e"
    and j': "join_options (map bencode_m xs) = Some j'" and j: "j = e @ j'"
    by (auto simp: join_options_Cons)
  have ne: "take 1 (drop (length pre) (pre @ e @ (j' @ ''e'' @ rest))) \<noteq> ''e''"
    by (rule take1_not_e[OF bencode_first[OF e]])
  have d: "bdecode_m (pre @ e @ (j' @ ''e'' @ rest)) (length pre)
             = Some (in_key_order x, length pre + length e)"
    by (rule Cons.prems(1)[OF _ e]) simp
  have IH: "bdecode_list ((pre @ e) @ j' @ ''e'' @ rest) (length (pre @ e)) (out @ [in_key_order x])
              = Some ((out @ [in_key_order x]) @ map in_key_order xs, length (pre @ e) + length j')"
    by (rule Cons.IH[OF _ j']) (rule Cons.prems(1), simp_all)
  show ?case
    unfolding j
    apply (subst bdecode_list.simps)
    using ne d IH by simp
qed

lemma dict_set_new: "k \<notin> fst ` set out \<Longrightarrow> dict_set out k v = out @ [(k, v)]"
  by (induction out) auto

lemma bdecode_dict_roundtrip:
  assumes "\<And>kv pre rest enc. kv \<in> set kvs \<Longrightarrow> bencode_m (snd kv) = Some enc \<Longrightarrow>
             bdecode_m (pre @ enc @ rest) (length pre) = Some (in_key_order (snd kv), length pre + length enc)"
    and "join_options (map (\<lambda>kv. case bencode_bytes (fst kv) of None \<Rightarrow> None
                                  | Some a \<Rightarrow> map_option (\<lambda>b. a @ b) (bencode_m (snd kv))) kvs) = Some j"
    and "distinct (map fst kvs)" "fst ` set out \<inter> fst ` set kvs = {}"
  shows "bdecode_dict (pre @ j @ ''e'' @ rest) (length pre) out
           = Some (out @ map (\<lambda>kv. (fst kv, in_key_order (snd kv))) kvs, length pre + length j)"
  using assms
proof (induction kvs arbitrary: pre out j)
  case Nil
  then show ?case by (subst bdecode_dict.simps) simp
next
  case (Cons kv kvs)
  obtain k v where kv: "kv = (k, v)" by (cases kv) auto
  from Cons.prems(2) kv obtain a e j' where a: "bencode_bytes k = Some a" and e: "bencode_m v = Some e"
    and j': "join_options (map (\<lambda>kv. case bencode_bytes (fst kv) of None \<Rightarrow> None
                                  | Some a \<Rightarrow> map_option (\<lambda>b. a @ b) (bencode_m (snd kv))) kvs) = Some j'"
    and j: "j = (a @ e) @ j'"
    by (auto simp: join_options_Cons split: option.splits)
  have af: "a \<noteq> [] \<and> hd a \<noteq> CHR ''e''"
    using bencode_first[of "MBytes k" a] a by simp
  have ne: "take 1 (drop (length pre) (pre @ a @ (e @ j' @ ''e'' @ rest))) \<noteq> ''e''"
    by (rule take1_not_e[OF af])
  have d1: "bdecode_m (pre @ a @ (e @ j' @ ''e'' @ rest)) (length pre) = Some (MBytes k, length pre + length a)"
    by (rule bdecode_bytes_case[OF a])
  have d2: "bdecode_m ((pre @ a) @ e @ (j' @ ''e'' @ rest)) (length (pre @ a))
              = Some (in_key_order v, length (pre @ a) + length e)"
    using Cons.prems(1)[of kv e "pre @ a" "j' @ ''e'' @ rest"] e kv by simp
  have kn: "k \<notin> fst ` set out" using Cons.prems(4) kv by auto
  have disj: "fst ` set (out @ [(k, in_key_order v)]) \<inter> fst ` set kvs = {}"
    using Cons.prems(3,4) kv by auto
  have IH: "bdecode_dict ((pre @ a @ e) @ j' @ ''e'' @ rest) (length (pre @ a @ e)) (out @ [(k, in_key_order v)])
              = Some ((out @ [(k, in_key_order v)]) @ map (\<lambda>kv. (fst kv, in_key_order (snd kv))) kvs,
                      length (pre @ a @ e) + length j')"
    by (rule Cons.IH[OF _ j' _ disj]) (use Cons.prems(1,3) in auto)
  show ?case
    unfolding j
    apply (subst bdecode_dict.simps)
    using ne d1 d2 IH kv by (simp add: dict_set_new[OF kn] add.assoc)
qed

lemma bdecode_bencode_at:
  "keys_distinct v \<Longrightarrow> no_bool v \<Longrightarrow> bencode_m v = Some enc \<Longrightarrow>
   bdecode_m (pre @ enc @ rest) (length pre) = Some (in_key_order v, length pre + length enc)"
proof (induction v arbitrary: pre rest enc)
  case (MInt x)
  then obtain s where s: "py_str_int x = Some s" and enc: "enc = ''i'' @ s @ ''e''" by auto
  show ?case unfolding enc using bdecode_int_case[OF s, of pre rest] by simp
next
  case (MBool b)
  then show ?case by simp
next
  case (MBytes b)
  then show ?case using bdecode_bytes_case[of b enc pre rest] by simp
next
  case (MList xs)
  from MList.prems obtain j where j: "join_options (map bencode_m xs) = Some j"
    and enc: "enc = ''l'' @ j @ ''e''" by auto
  have el: "bdecode_m (p @ e @ r) (length p) = Some (in_key_order x, length p + length e)"
    if "x \<in> set xs" "bencode_m x = Some e" for x p r e
    using MList.IH[OF that(1) _ _ that(2)] MList.prems(1,2) that(1) by (simp add: list_all_iff)
  have l: "bdecode_list ((pre @ ''l'') @ j @ ''e'' @ rest) (length (pre @ ''l'')) []
             = Some ([] @ map in_key_order xs, length (pre @ ''l'') + length j)"
    by (rule bdecode_list_roundtrip[OF el j])
  show ?case
    unfolding enc
    apply (subst bdecode_m.simps)
    using l by (simp add: Let_def)
next
  case (MDict kvs)
  let ?items = "sort_key fst kvs"
  from MDict.prems obtain j where j: "join_options (map (\<lambda>kv. case bencode_bytes (fst kv) of None \<Rightarrow> None
                                  | Some a \<Rightarrow> map_option (\<lambda>b. a @ b) (bencode_m (snd kv))) ?items) = Some j"
    and enc: "enc = ''d'' @ j @ ''e''" by auto
  have el: "bdecode_m (p @ e @ r) (length p) = Some (in_key_order (snd kv), length p + length e)"
    if "kv \<in> set ?items" "bencode_m (snd kv) = Some e" for kv p r e
  proof -
    from that(1) have m: "kv \<in> set kvs" by simp
    have sn: "snd kv \<in> Basic_BNFs.snds kv" by (cases kv) (simp add: prod_set_simps)
    from MDict.IH[OF m sn _ _ that(2)] MDict.prems(1,2) m show ?thesis
      by (simp add: list_all_iff)
  qed
  have dk: "distinct (map fst ?items)"
  proof -
    from MDict.prems(1) have "distinct (map fst kvs)" by simp
    then have "distinct kvs" "inj_on fst (set kvs)" by (simp_all add: distinct_map)
    then show ?thesis by (simp add: distinct_map)
  qed
  have l: "bdecode_dict ((pre @ ''d'') @ j @ ''e'' @ rest) (length (pre @ ''d'')) []
             = Some ([] @ map (\<lambda>kv. (fst kv, in_key_order (snd kv))) ?items, length (pre @ ''d'') + length j)"
    by (rule bdecode_dict_roundtrip[OF el j dk]) simp_all
  show ?case
    unfolding enc
    apply (subst bdecode_m.simps)
    using l by (simp add: Let_def)
qed

lemma map_of_in_key_order:
  fixes kvs :: "('a :: linorder \<times> mvalue) list"
  assumes "distinct (map fst kvs)"
  shows "map_of (map (\<lambda>kv. (fst kv, in_key_order (snd kv))) (sort_key fst kvs)) k
           = map_option in_key_order (map_of kvs k)"
proof -
  from assms have "distinct kvs" "inj_on fst (set kvs)" by (simp_all add: distinct_map)
  then have d: "distinct (map fst (sort_key fst kvs))" by (simp add: distinct_map)
  have a: "map_of (sort_key fst kvs) = map_of kvs"
    by (rule map_of_eqI) (use d assms in \<open>auto simp: map_of_eq_Some_iff\<close>)
  have b: "map_of (map (\<lambda>kv. (fst kv, in_key_order (snd kv))) xs) k
                   = map_option in_key_order (map_of xs k)" for xs :: "('a \<times> mvalue) list" and k
    by (induction xs) auto
  show ?thesis by (simp add: a b)
qed

lemma example_dict_encoded: "bencode_m example_dict = Some ''d1:al2:xydee1:bi-5ee''"
  by code_simp

lemma example_dict_decoded:
  "bdecode_m ''d1:al2:xydee1:bi-5ee'' 0
     = Some (MDict [(''a'', MList [MBytes ''xy'', MDict []]), (''b'', MInt (- 5))], 20)"
  by code_simp

lemma bool_encoded: "bencode_m (MDict [(''a'', MBool True)]) = Some ''d1:aiTrueee''"
  by code_simp

lemma bool_not_decoded: "bdecode_m ''d1:aiTrueee'' 0 = None"
  by code_simp

lemma dec_nat_length: "10 ^ k \<le> n \<Longrightarrow> k < length (dec_nat n)"
proof (induction k arbitrary: n)
  case 0
  show ?case using dec_nat_nonempty[of n] by (cases "dec_nat n") auto
next
  case (Suc k)
  then have "10 \<le> n" "10 ^ k \<le> n div 10"
    by (auto simp: less_eq_div_iff_mult_less_eq intro: order_trans[of 10 "10 * 10 ^ k"])
  with Suc.IH[of "n div 10"] show ?case by (subst dec_nat.simps) simp
qed

lemma py_str_int_power: "py_str_int (10 ^ max_str_digits) = None"
proof -
  have a: "nat \<bar>(10 :: int) ^ max_str_digits\<bar> = 10 ^ max_str_digits"
    by (simp add: nat_power_eq)
  have b: "nat ((10 :: int) ^ max_str_digits) = 10 ^ max_str_digits"
    by (simp add: nat_power_eq)
  from dec_nat_length[of max_str_digits "10 ^ max_str_digits"] show ?thesis
    by (simp add: py_str_int_def Let_def a b)
qed

lemma join_options_defined: "(join_options xs \<noteq> None) = list_all (\<lambda>x. x \<noteq> None) xs"
  by (induction xs rule: join_options.induct) auto

lemma bencode_bytes_defined: "(bencode_bytes b \<noteq> None) = (length (dec_nat (length b)) \<le> max_str_digits)"
  by (auto simp: bencode_bytes_def py_str_int_def Let_def)

lemma bencode_m_defined: "(bencode_m v \<noteq> None) = within_digit_limit v"
proof (induction v)
  case (MInt x)
  show ?case by (auto simp: py_str_int_def Let_def)
next
  case (MBool b)
  show ?case by simp
next
  case (MBytes b)
  show ?case using bencode_bytes_defined[of b] by simp
next
  case (MList xs)
  then show ?case
    by (simp add: join_options_defined list_all_iff del: not_None_eq)
next
  case (MDict kvs)
  have "(case bencode_bytes (fst kv) of None \<Rightarrow> None | Some a \<Rightarrow> map_option ((@) a) (bencode_m (snd kv))) \<noteq> None
        \<longleftrightarrow> length (dec_nat (length (fst kv))) \<le> max_str_digits \<and> within_digit_limit (snd kv)"
    if "kv \<in> set kvs" for kv
  proof -
    have sn: "snd kv \<in> Basic_BNFs.snds kv" by (cases kv) (simp add: prod_set_simps)
    from MDict.IH[OF that sn] bencode_bytes_defined[of "fst kv"] show ?thesis
      by (auto split: option.splits)
  qed
  then show ?case
    by (simp add: join_options_defined list_all_iff del: not_None_eq)
qed

text \<open>
  C9, as stated, fails. A boolean is an \<^verbatim>\<open>int\<close> for \<^verbatim>\<open>_bencode\<close>, which writes \<^verbatim>\<open>iTruee\<close>, and
  \<^verbatim>\<open>_bdecode\<close> raises on that; and \<^verbatim>\<open>_bencode\<close> raises on an integer of 4301 digits, so there
  is no encoding to decode.
\<close>

theorem bencode_roundtrip_counterexample:
  "bencode_m (MDict [(''a'', MBool True)]) = Some ''d1:aiTrueee''
   \<and> bdecode_m ''d1:aiTrueee'' 0 = None
   \<and> bencode_m (MDict [(''a'', MInt (10 ^ max_str_digits))]) = None"
proof -
  have "bencode_m (MDict [(''a'', MInt (10 ^ max_str_digits))]) = None"
    by (simp add: py_str_int_power split: option.splits)
  with bool_encoded bool_not_decoded show ?thesis by simp
qed

text \<open>
  C9 (amended): for every dictionary \<open>d\<close> whose keys are byte strings and whose values are
  built from integers other than booleans, byte strings, lists and such dictionaries, and
  for which \<^verbatim>\<open>_bencode(d)\<close> returns, \<^verbatim>\<open>_bdecode(_bencode(d), 0)\<close> yields the dictionary with the
  same keys and values (its items in key order, at every level) and the length of the
  encoding. \<^verbatim>\<open>_bencode\<close> returns exactly when every integer, and the length of every byte
  string, has at most 4300 decimal digits (the recursion limit aside), and it writes the
  items of every dictionary in the lexicographic order of their keys.
\<close>

theorem bencode_decode_roundtrip:
  "(keys_distinct (MDict kvs) \<and> no_bool (MDict kvs) \<and> bencode_m (MDict kvs) = Some enc \<longrightarrow>
      bdecode_m enc 0 = Some (in_key_order (MDict kvs), length enc)
      \<and> (\<forall>k. map_of (map (\<lambda>kv. (fst kv, in_key_order (snd kv))) (sort_key fst kvs)) k
                = map_option in_key_order (map_of kvs k)))
   \<and> (bencode_m v \<noteq> None) = within_digit_limit v
   \<and> sorted (map fst (sort_key fst kvs'))
   \<and> bencode_m (MDict kvs') =
        map_option (\<lambda>j. ''d'' @ j @ ''e'')
          (join_options
             (map (\<lambda>kv. case bencode_bytes (fst kv) of
                           None \<Rightarrow> None
                         | Some a \<Rightarrow> map_option (\<lambda>b. a @ b) (bencode_m (snd kv)))
                  (sort_key fst kvs')))"
proof (intro conjI impI allI)
  assume h: "keys_distinct (MDict kvs) \<and> no_bool (MDict kvs) \<and> bencode_m (MDict kvs) = Some enc"
  from bdecode_bencode_at[of "MDict kvs" enc "[]" "[]"] h
  show "bdecode_m enc 0 = Some (in_key_order (MDict kvs), length enc)" by simp
  from h have "distinct (map fst kvs)" by simp
  from map_of_in_key_order[OF this]
  show "map_of (map (\<lambda>kv. (fst kv, in_key_order (snd kv))) (sort_key fst kvs)) k
          = map_option in_key_order (map_of kvs k)" for k .
next
  show "(bencode_m v \<noteq> None) = within_digit_limit v" by (rule bencode_m_defined)
  show "sorted (map fst (sort_key fst kvs'))" by simp
  show "bencode_m (MDict kvs') =
        map_option (\<lambda>j. ''d'' @ j @ ''e'')
          (join_options
             (map (\<lambda>kv. case bencode_bytes (fst kv) of
                           None \<Rightarrow> None
                         | Some a \<Rightarrow> map_option (\<lambda>b. a @ b) (bencode_m (snd kv)))
                  (sort_key fst kvs')))" by simp
qed

theorem bencode_decode_roundtrip_witness:
  "bencode_m (MDict [(''b'', MInt (- 5)), (''a'', MList [MBytes ''xy'', MDict []])])
     = Some ''d1:al2:xydee1:bi-5ee''
   \<and> bdecode_m ''d1:al2:xydee1:bi-5ee'' 0
     = Some (in_key_order (MDict [(''b'', MInt (- 5)), (''a'', MList [MBytes ''xy'', MDict []])]),
             length ''d1:al2:xydee1:bi-5ee'')
   \<and> in_key_order (MDict [(''b'', MInt (- 5)), (''a'', MList [MBytes ''xy'', MDict []])])
     = MDict [(''a'', MList [MBytes ''xy'', MDict []]), (''b'', MInt (- 5))]"
proof -
  let ?kvs = "[(''b'', MInt (- 5)), (''a'', MList [MBytes ''xy'', MDict []])]"
  have e: "bencode_m (MDict ?kvs) = Some ''d1:al2:xydee1:bi-5ee''"
    using example_dict_encoded by (simp only: example_dict_def)
  have kd: "keys_distinct (MDict ?kvs)" by simp
  have nb: "no_bool (MDict ?kvs)" by simp
  have c: "in_key_order (MDict ?kvs) = MDict [(''a'', MList [MBytes ''xy'', MDict []]), (''b'', MInt (- 5))]"
    by code_simp
  from bencode_decode_roundtrip[of ?kvs "''d1:al2:xydee1:bi-5ee''", THEN conjunct1] kd nb e
  have "bdecode_m ''d1:al2:xydee1:bi-5ee'' 0
          = Some (in_key_order (MDict ?kvs), length ''d1:al2:xydee1:bi-5ee'')"
    by blast
  with e c show ?thesis by blast
qed

end
